theory Spec2Isabelle
  imports Complex_Main "HOL-Library.Multiset"
begin

section \<open>Python values shared by the adapters\<close>

text \<open>
  A call into the HTTP layer either raises or returns; every \<open>try/except\<close> of the
  source is a case split on this type.
\<close>

datatype 'a outcome = Raised string | Returned 'a

text \<open>
  What an adapter method hands back when the interesting part is whether it is a list
  or Python's \<open>None\<close>. A breadcrumb entry is the pair (fid, name).
\<close>

type_synonym crumb = "string \<times> string"



section \<open>AliyunAdapter.get_file_path\<close>




section \<open>Persisting a rotated refresh token: save_config\<close>

text \<open>
  An entry of the \<open>accounts\<close> list of the configuration file. Every field is read
  with \<open>dict.get\<close>, so each may be absent.
\<close>

record account =
  acc_name :: "string option"
  acc_drive_type :: "string option"
  acc_cookie :: "string option"
  acc_enabled :: "bool option"
  acc_default :: "bool option"
  acc_token_updated_at :: "real option"

text \<open>Truthiness of an optional string argument (\<open>None\<close> and \<open>""\<close> are false).\<close>

definition truthy :: "string option \<Rightarrow> bool" where
  "truthy s = (case s of None \<Rightarrow> False | Some v \<Rightarrow> v \<noteq> [])"

text \<open>
  The loop over \<open>accounts\<close> of \<open>save_config\<close> (aliyun\_adapter.py lines 78-89,
  xunlei\_adapter.py lines 83-92; they differ in the drive type only). It returns the
  accounts and the \<open>updated\<close> flag. \<open>current_time\<close> is \<open>time.time()\<close>, read once
  before the loop.
\<close>

fun update_accounts ::
  "string \<Rightarrow> real \<Rightarrow> string \<Rightarrow> string option \<Rightarrow> account list \<Rightarrow> account list \<times> bool" where
  "update_accounts dt current_time new_refresh_token account_name [] = ([], False)"
| "update_accounts dt current_time new_refresh_token account_name (acc # rest) =
     (if acc_drive_type acc = Some dt then
        (if truthy account_name \<and> acc_name acc \<noteq> account_name
         then (let (rest', updated) = update_accounts dt current_time new_refresh_token account_name rest
               in (acc # rest', updated))
         else
           (let acc' = acc\<lparr>acc_cookie := Some new_refresh_token,
                              acc_token_updated_at := Some current_time\<rparr>
            in if truthy account_name then (acc' # rest, True)
               else (let (rest', updated) = update_accounts dt current_time new_refresh_token account_name rest
                     in (acc' # rest', True))))
      else (let (rest', updated) = update_accounts dt current_time new_refresh_token account_name rest
            in (acc # rest', updated)))"

text \<open>
  \<open>save_config\<close>. The configuration file is \<open>None\<close> when \<open>Config.read_json\<close>
  gives nothing (or raises), else its \<open>accounts\<close> list. The result is the file
  afterwards and the returned flag; the file is written only when an account was updated.
\<close>

definition save_config ::
  "string \<Rightarrow> real \<Rightarrow> account list option \<Rightarrow> string \<Rightarrow> string option \<Rightarrow> account list option \<times> bool" where
  "save_config dt current_time config new_refresh_token account_name =
     (case config of
        None \<Rightarrow> (None, False)
      | Some accounts \<Rightarrow>
          (let (accounts', updated) = update_accounts dt current_time new_refresh_token account_name accounts
           in if updated then (Some accounts', True) else (config, False)))"

definition aliyun_save_config ::
  "real \<Rightarrow> account list option \<Rightarrow> string \<Rightarrow> string option \<Rightarrow> account list option \<times> bool" where
  "aliyun_save_config = save_config ''aliyun''"

definition xunlei_save_config ::
  "real \<Rightarrow> account list option \<Rightarrow> string \<Rightarrow> string option \<Rightarrow> account list option \<times> bool" where
  "xunlei_save_config = save_config ''xunlei''"

section \<open>AdapterFactory\<close>

datatype adapter_class =
  QuarkAdapter | Cloud115Adapter | BaiduAdapter | XunleiAdapter | AliyunAdapter | UCAdapter

text \<open>
  The attributes of an adapter object that the factory and the account manager read.
\<close>

record adapter =
  DRIVE_TYPE :: string
  ad_cookie :: string
  ad_index :: int
  is_active :: bool
  nickname :: string

text \<open>
  A pattern of \<open>URL_PATTERNS\<close>. All six patterns of the source are an alternation of
  literal texts (\<open>(?:115|anxia|115cdn)\.com\<close>), so a pattern is the list of its
  alternatives, and \<open>re.search\<close> finds one of them anywhere in the url.
\<close>

type_synonym url_pattern = "string list"

fun starts_with :: "string \<Rightarrow> string \<Rightarrow> bool" where
  "starts_with [] s = True"
| "starts_with (c # cs) [] = False"
| "starts_with (c # cs) (d # ds) = (c = d \<and> starts_with cs ds)"

fun contains :: "string \<Rightarrow> string \<Rightarrow> bool" where
  "contains lit [] = (lit = [])"
| "contains lit (d # ds) = (starts_with lit (d # ds) \<or> contains lit ds)"

definition re_search :: "url_pattern \<Rightarrow> string \<Rightarrow> bool" where
  "re_search pattern url = list_ex (\<lambda>lit. contains lit url) pattern"

text \<open>
  The class attributes of \<open>AdapterFactory\<close> and the objects it has constructed. An
  adapter instance is a reference (a number); \<open>objects\<close> gives the object behind a
  reference and \<open>next_ref\<close> is the first reference not yet handed out, so two
  instances are the same object exactly when the references are equal.
\<close>

record factory =
  ADAPTER_MAP :: "string \<rightharpoonup> adapter_class"
  URL_PATTERNS :: "(url_pattern \<times> string) list"
  instance_cache :: "string \<rightharpoonup> nat"
  objects :: "nat \<Rightarrow> adapter"
  next_ref :: nat

definition default_ADAPTER_MAP :: "string \<rightharpoonup> adapter_class" where
  "default_ADAPTER_MAP = map_of
     [(''quark'', QuarkAdapter), (''115'', Cloud115Adapter), (''baidu'', BaiduAdapter),
      (''xunlei'', XunleiAdapter), (''aliyun'', AliyunAdapter), (''uc'', UCAdapter)]"

definition default_URL_PATTERNS :: "(url_pattern \<times> string) list" where
  "default_URL_PATTERNS =
     [([''pan.quark.cn''], ''quark''),
      ([''115.com'', ''anxia.com'', ''115cdn.com''], ''115''),
      ([''pan.baidu.com''], ''baidu''),
      ([''pan.xunlei.com''], ''xunlei''),
      ([''alipan.com'', ''aliyundrive.com''], ''aliyun''),
      ([''drive.uc.cn''], ''uc'')]"

text \<open>
  \<open>_make_cache_key\<close>: \<open>md5_hexdigest\<close> stands for
  \<open>hashlib.md5(cookie.encode("utf-8")).hexdigest()\<close>, a library function.
\<close>

definition make_cache_key :: "(string \<Rightarrow> string) \<Rightarrow> string \<Rightarrow> string \<Rightarrow> string" where
  "make_cache_key md5_hexdigest drive_type cookie =
     drive_type @ '':'' @ take 16 (md5_hexdigest cookie)"

text \<open>
  \<open>create_adapter\<close> (lines 71-103). \<open>new_adapter cls cookie index\<close> is the call
  \<open>adapter_class(cookie=cookie, index=index)\<close>: \<open>None\<close> when the constructor raises
  (the \<open>except\<close> branch, which returns \<open>None\<close> and caches nothing).
\<close>

definition create_adapter ::
  "(string \<Rightarrow> string) \<Rightarrow> (adapter_class \<Rightarrow> string \<Rightarrow> int \<Rightarrow> adapter option) \<Rightarrow>
   string \<Rightarrow> string \<Rightarrow> int \<Rightarrow> factory \<Rightarrow> nat option \<times> factory" where
  "create_adapter md5_hexdigest new_adapter drive_type cookie index st =
     (case ADAPTER_MAP st drive_type of
        None \<Rightarrow> (None, st)
      | Some adapter_class \<Rightarrow>
          (let cache_key = make_cache_key md5_hexdigest drive_type cookie in
           case instance_cache st cache_key of
             Some cached \<Rightarrow> (Some cached, st)
           | None \<Rightarrow>
               (case new_adapter adapter_class cookie index of
                  None \<Rightarrow> (None, st)
                | Some obj \<Rightarrow>
                    (Some (next_ref st),
                     st\<lparr>objects := (objects st)(next_ref st := obj),
                        next_ref := Suc (next_ref st),
                        instance_cache := (instance_cache st)(cache_key \<mapsto> next_ref st)\<rparr>))))"

definition clear_cache :: "factory \<Rightarrow> factory" where
  "clear_cache st = st\<lparr>instance_cache := Map.empty\<rparr>"

text \<open>\<open>get_drive_type_by_url\<close>: the first pattern of the table that matches wins.\<close>

fun first_pattern :: "(url_pattern \<times> string) list \<Rightarrow> string \<Rightarrow> string option" where
  "first_pattern [] url = None"
| "first_pattern ((pattern, drive_type) # rest) url =
     (if re_search pattern url then Some drive_type else first_pattern rest url)"

definition get_drive_type_by_url :: "factory \<Rightarrow> string \<Rightarrow> string option" where
  "get_drive_type_by_url st url = first_pattern (URL_PATTERNS st) url"

text \<open>
  Every cached reference has been handed out: the invariant of the factory's states,
  true of the initial state and kept by \<open>create_adapter\<close> and \<open>clear_cache\<close>.
\<close>

definition factory_inv :: "factory \<Rightarrow> bool" where
  "factory_inv st = (\<forall>k r. instance_cache st k = Some r \<longrightarrow> r < next_ref st)"

section \<open>AccountManager\<close>

text \<open>
  \<open>self.adapters\<close> is a dict from account name to adapter; it is iterated in
  insertion order, so it is an association list, and \<open>d[k] = v\<close> keeps the place of a
  key that is already there.
\<close>

fun dict_set :: "'k \<Rightarrow> 'v \<Rightarrow> ('k \<times> 'v) list \<Rightarrow> ('k \<times> 'v) list" where
  "dict_set k v [] = [(k, v)]"
| "dict_set k v ((k', v') # rest) =
     (if k' = k then (k, v) # rest else (k', v') # dict_set k v rest)"

record account_manager =
  adapters :: "(string \<times> nat) list"
  default_adapter :: "nat option"

text \<open>\<open>str(n)\<close> for a natural number, for the default account names.\<close>

definition digit_char :: "nat \<Rightarrow> char" where
  "digit_char d = ''0123456789'' ! d"

function str_of_nat :: "nat \<Rightarrow> string" where
  "str_of_nat n = (if n < 10 then [digit_char n] else str_of_nat (n div 10) @ [digit_char (n mod 10)])"
  by pat_completeness auto
termination
  by (relation "measure id") auto

declare str_of_nat.simps [simp del]

text \<open>
  The default account names: the UTF-8 bytes of the two Chinese words of the source
  followed by the account's number.
\<close>

definition default_account_name :: "nat \<Rightarrow> string" where
  "default_account_name i =
     [CHR 0xE8, CHR 0xB4, CHR 0xA6, CHR 0xE6, CHR 0x88, CHR 0xB7] @ str_of_nat (i + 1)"

definition legacy_account_name :: "nat \<Rightarrow> string" where
  "legacy_account_name i =
     [CHR 0xE5, CHR 0xA4, CHR 0xB8, CHR 0xE5, CHR 0x85, CHR 0x8B,
      CHR 0xE8, CHR 0xB4, CHR 0xA6, CHR 0xE6, CHR 0x88, CHR 0xB7] @ str_of_nat (i + 1)"

text \<open>
  The loop over \<open>config_data["accounts"]\<close> (lines 170-182), with the index \<open>i\<close> of
  \<open>enumerate\<close>. The factory is threaded through because \<open>create_adapter\<close> changes
  it.
\<close>

fun load_accounts_new ::
  "(string \<Rightarrow> string) \<Rightarrow> (adapter_class \<Rightarrow> string \<Rightarrow> int \<Rightarrow> adapter option) \<Rightarrow>
   nat \<Rightarrow> account list \<Rightarrow> factory \<times> account_manager \<Rightarrow> factory \<times> account_manager" where
  "load_accounts_new md5_hexdigest new_adapter i [] (f, m) = (f, m)"
| "load_accounts_new md5_hexdigest new_adapter i (account # rest) (f, m) =
     (if \<not> (case acc_enabled account of None \<Rightarrow> True | Some b \<Rightarrow> b)
      then load_accounts_new md5_hexdigest new_adapter (Suc i) rest (f, m)
      else
        (let name = (case acc_name account of None \<Rightarrow> default_account_name i | Some n \<Rightarrow> n);
             drive_type = (case acc_drive_type account of None \<Rightarrow> ''quark'' | Some d \<Rightarrow> d);
             cookie = (case acc_cookie account of None \<Rightarrow> [] | Some c \<Rightarrow> c)
         in case create_adapter md5_hexdigest new_adapter drive_type cookie (int i) f of
              (None, f') \<Rightarrow> load_accounts_new md5_hexdigest new_adapter (Suc i) rest (f', m)
            | (Some a, f') \<Rightarrow>
                load_accounts_new md5_hexdigest new_adapter (Suc i) rest
                  (f', \<lparr>adapters = dict_set name a (adapters m),
                        default_adapter =
                          (if (case acc_default account of None \<Rightarrow> False | Some b \<Rightarrow> b)
                              \<or> default_adapter m = None
                           then Some a else default_adapter m)\<rparr>)))"

text \<open>
  The legacy format (lines 185-201): \<open>cookie\<close> is a string or a list of strings.
  \<open>str.strip()\<close> is modelled for ASCII white space, \<open>split\<close> for the separator
  \<open>"\\n"\<close>.
\<close>

datatype cookie_config = CookieStr string | CookieList "string list"

definition is_space :: "char \<Rightarrow> bool" where
  "is_space c = (c \<in> {CHR 0x20, CHR 0x09, CHR 0x0A, CHR 0x0B, CHR 0x0C, CHR 0x0D,
                       CHR 0x1C, CHR 0x1D, CHR 0x1E, CHR 0x1F})"

definition py_strip :: "string \<Rightarrow> string" where
  "py_strip s = rev (dropWhile is_space (rev (dropWhile is_space s)))"

fun split_lines :: "string \<Rightarrow> string \<Rightarrow> string list" where
  "split_lines [] cur = [cur]"
| "split_lines (c # cs) cur =
     (if c = CHR 0x0A then cur # split_lines cs [] else split_lines cs (cur @ [c]))"

definition legacy_cookies :: "cookie_config \<Rightarrow> string list" where
  "legacy_cookies cookies =
     (case cookies of
        CookieStr s \<Rightarrow> (if s \<noteq> [] then [s] else [])
      | CookieList [] \<Rightarrow> []
      | CookieList (c # cs) \<Rightarrow>
          (if CHR 0x0A \<in> set c then split_lines c [] else c # cs))"

fun load_accounts_legacy ::
  "(string \<Rightarrow> string) \<Rightarrow> (adapter_class \<Rightarrow> string \<Rightarrow> int \<Rightarrow> adapter option) \<Rightarrow>
   nat \<Rightarrow> string list \<Rightarrow> factory \<times> account_manager \<Rightarrow> factory \<times> account_manager" where
  "load_accounts_legacy md5_hexdigest new_adapter i [] (f, m) = (f, m)"
| "load_accounts_legacy md5_hexdigest new_adapter i (cookie # rest) (f, m) =
     (if py_strip cookie = []
      then load_accounts_legacy md5_hexdigest new_adapter (Suc i) rest (f, m)
      else
        (case create_adapter md5_hexdigest new_adapter ''quark'' (py_strip cookie) (int i) f of
           (None, f') \<Rightarrow> load_accounts_legacy md5_hexdigest new_adapter (Suc i) rest (f', m)
         | (Some a, f') \<Rightarrow>
             load_accounts_legacy md5_hexdigest new_adapter (Suc i) rest
               (f', \<lparr>adapters = dict_set (legacy_account_name i) a (adapters m),
                     default_adapter =
                       (if default_adapter m = None then Some a else default_adapter m)\<rparr>)))"

text \<open>
  \<open>config_data\<close>: the keys \<open>accounts\<close> and \<open>cookie\<close>, each possibly absent.
\<close>

record config_data =
  cfg_accounts :: "account list option"
  cfg_cookie :: "cookie_config option"

text \<open>
  \<open>load_accounts\<close> (lines 156-203): the manager is emptied first; the result is the
  factory, the manager and the returned \<open>bool(self.adapters)\<close>.
\<close>

definition load_accounts ::
  "(string \<Rightarrow> string) \<Rightarrow> (adapter_class \<Rightarrow> string \<Rightarrow> int \<Rightarrow> adapter option) \<Rightarrow>
   config_data \<Rightarrow> factory \<Rightarrow> factory \<times> account_manager \<times> bool" where
  "load_accounts md5_hexdigest new_adapter cfg f =
     (let start = \<lparr>adapters = [], default_adapter = None\<rparr>;
          (f', m) =
            (case cfg_accounts cfg of
               Some accounts \<Rightarrow> load_accounts_new md5_hexdigest new_adapter 0 accounts (f, start)
             | None \<Rightarrow>
                 (case cfg_cookie cfg of
                    Some cookies \<Rightarrow>
                      load_accounts_legacy md5_hexdigest new_adapter 0 (legacy_cookies cookies) (f, start)
                  | None \<Rightarrow> (f, start)))
      in (f', m, adapters m \<noteq> []))"

text \<open>A task: the keys \<open>account_name\<close> and \<open>shareurl\<close>, each possibly absent.\<close>

record task =
  task_account_name :: "string option"
  task_shareurl :: "string option"

text \<open>
  The loop of lines 235-237 over \<open>self.adapters.values()\<close>: the first adapter of the
  drive type that is active.
\<close>

fun first_active :: "(nat \<Rightarrow> adapter) \<Rightarrow> string \<Rightarrow> nat list \<Rightarrow> nat option" where
  "first_active objs drive_type [] = None"
| "first_active objs drive_type (a # rest) =
     (if DRIVE_TYPE (objs a) = drive_type \<and> is_active (objs a) then Some a
      else first_active objs drive_type rest)"

text \<open>\<open>get_adapter_for_task\<close> (lines 213-240); \<open>None\<close> is Python's \<open>None\<close>.\<close>

definition get_adapter_for_task :: "factory \<Rightarrow> account_manager \<Rightarrow> task \<Rightarrow> nat option" where
  "get_adapter_for_task f m t =
     (case (case task_account_name t of
              None \<Rightarrow> None
            | Some account_name \<Rightarrow>
                (if account_name \<noteq> [] then map_of (adapters m) account_name else None)) of
        Some adapter \<Rightarrow> Some adapter
      | None \<Rightarrow>
          (let shareurl = (case task_shareurl t of None \<Rightarrow> [] | Some u \<Rightarrow> u) in
           case get_drive_type_by_url f shareurl of
             None \<Rightarrow> default_adapter m
           | Some drive_type \<Rightarrow>
               (if drive_type \<noteq> [] then
                  (case first_active (objects f) drive_type (map snd (adapters m)) of
                     Some adapter \<Rightarrow> Some adapter
                   | None \<Rightarrow> default_adapter m)
                else default_adapter m)))"

text \<open>
  The names the theorems about the account manager use: the name \<open>load_accounts\<close>
  gives the account at index \<open>i\<close>, whether the task names a loaded account, the url
  of a task, and the test of line 236.
\<close>

definition account_name_of :: "nat \<Rightarrow> account \<Rightarrow> string" where
  "account_name_of i account =
     (case acc_name account of None \<Rightarrow> default_account_name i | Some n \<Rightarrow> n)"

definition task_names_loaded :: "account_manager \<Rightarrow> task \<Rightarrow> bool" where
  "task_names_loaded m t =
     (case task_account_name t of
        None \<Rightarrow> False
      | Some n \<Rightarrow> n \<noteq> [] \<and> map_of (adapters m) n \<noteq> None)"

definition task_url :: "task \<Rightarrow> string" where
  "task_url t = (case task_shareurl t of None \<Rightarrow> [] | Some u \<Rightarrow> u)"

definition serves :: "factory \<Rightarrow> string \<Rightarrow> nat \<Rightarrow> bool" where
  "serves f dt a = (DRIVE_TYPE (objects f a) = dt \<and> is_active (objects f a))"

text \<open>
  The names \<open>load_accounts\<close> gives the accounts of a list whose first index is \<open>i\<close>,
  disabled accounts included.
\<close>

definition account_names :: "nat \<Rightarrow> account list \<Rightarrow> string list" where
  "account_names i accounts = map (\<lambda>(j, account). account_name_of j account) (enumerate i accounts)"

section \<open>The initial factory and the base constructor\<close>

text \<open>
  The class attributes as the module defines them, before any adapter is made, and
  \<open>BaseCloudDriveAdapter.__init__\<close> (base\_adapter.py lines 16-21) with each class's
  \<open>DRIVE_TYPE\<close>.
\<close>

definition init_factory :: factory where
  "init_factory =
     \<lparr>ADAPTER_MAP = default_ADAPTER_MAP, URL_PATTERNS = default_URL_PATTERNS,
      instance_cache = Map.empty,
      objects = (\<lambda>r. \<lparr>DRIVE_TYPE = ''base'', ad_cookie = [], ad_index = 0,
                       is_active = False, nickname = []\<rparr>),
      next_ref = 0\<rparr>"

definition class_drive_type :: "adapter_class \<Rightarrow> string" where
  "class_drive_type cls =
     (case cls of QuarkAdapter \<Rightarrow> ''quark'' | Cloud115Adapter \<Rightarrow> ''115'' | BaiduAdapter \<Rightarrow> ''baidu''
      | XunleiAdapter \<Rightarrow> ''xunlei'' | AliyunAdapter \<Rightarrow> ''aliyun'' | UCAdapter \<Rightarrow> ''uc'')"

definition base_init :: "adapter_class \<Rightarrow> string \<Rightarrow> int \<Rightarrow> adapter option" where
  "base_init cls cookie index =
     Some \<lparr>DRIVE_TYPE = class_drive_type cls, ad_cookie = py_strip cookie,
           ad_index = index + 1, is_active = False, nickname = []\<rparr>"

text \<open>An adapter whose \<open>init()\<close> has succeeded: \<open>is_active\<close> is set.\<close>

definition logged_in :: "adapter_class \<Rightarrow> string \<Rightarrow> int \<Rightarrow> adapter option" where
  "logged_in cls cookie index = map_option (\<lambda>a. a\<lparr>is_active := True\<rparr>) (base_init cls cookie index)"

text \<open>
  A configuration with an account on 115, a disabled account and an account on Aliyun,
  and the manager loaded from it.
\<close>

definition example_config :: config_data where
  "example_config =
     \<lparr>cfg_accounts = Some
        [\<lparr>acc_name = Some ''acctX'', acc_drive_type = Some ''115'', acc_cookie = Some ''UID=1'',
          acc_enabled = None, acc_default = None, acc_token_updated_at = None\<rparr>,
         \<lparr>acc_name = Some ''acctOff'', acc_drive_type = Some ''aliyun'', acc_cookie = Some ''r0'',
          acc_enabled = Some False, acc_default = None, acc_token_updated_at = None\<rparr>,
         \<lparr>acc_name = Some ''acctY'', acc_drive_type = Some ''aliyun'', acc_cookie = Some ''r1'',
          acc_enabled = Some True, acc_default = None, acc_token_updated_at = None\<rparr>],
      cfg_cookie = None\<rparr>"

definition example_loaded :: "factory \<times> account_manager \<times> bool" where
  "example_loaded = load_accounts (\<lambda>cookie. cookie) logged_in example_config init_factory"

text \<open>
  A configuration whose second account is marked as the default, and the manager loaded
  from it.
\<close>

definition example_config_marked :: config_data where
  "example_config_marked =
     \<lparr>cfg_accounts = Some
        [\<lparr>acc_name = Some ''acctX'', acc_drive_type = Some ''115'', acc_cookie = Some ''UID=1'',
          acc_enabled = None, acc_default = None, acc_token_updated_at = None\<rparr>,
         \<lparr>acc_name = Some ''acctY'', acc_drive_type = Some ''aliyun'', acc_cookie = Some ''r1'',
          acc_enabled = Some True, acc_default = Some True, acc_token_updated_at = None\<rparr>,
         \<lparr>acc_name = Some ''acctZ'', acc_drive_type = None, acc_cookie = Some ''kps=1'',
          acc_enabled = None, acc_default = Some False, acc_token_updated_at = None\<rparr>],
      cfg_cookie = None\<rparr>"

definition example_marked :: "factory \<times> account_manager \<times> bool" where
  "example_marked = load_accounts (\<lambda>cookie. cookie) logged_in example_config_marked init_factory"

section \<open>Aliyun: the share listing, get_detail and the BFS resolver\<close>

text \<open>
  An item of \<open>/adrive/v2/file/list_by_share\<close> and the response as \<open>_check_response\<close>
  returns it. The fields are read with \<open>dict.get\<close>; \<open>sp_code\<close> is \<open>""\<close> when the
  response has no (or a false) \<open>code\<close>, \<open>sp_next_marker\<close> is \<open>""\<close> when there is
  no further page.
\<close>

record share_item =
  it_file_id :: string
  it_name :: string
  it_type :: string
  it_size :: int
  it_updated_at :: string

record share_page =
  sp_code :: string
  sp_items :: "share_item list"
  sp_next_marker :: string

text \<open>
  The provider: \<open>list_by_share parent_file_id marker\<close> is \<open>self._request\<close> followed by
  \<open>_check_response\<close>; it raises (a transport failure) or returns a page. The BFS
  resolver sends no marker, which is read as the empty one.
\<close>

type_synonym share_provider = "string \<Rightarrow> string \<Rightarrow> share_page outcome"

text \<open>The unified file entry that \<open>_convert_share_item\<close> builds.\<close>

record file_info =
  fi_fid :: string
  fi_file_name :: string
  fi_file_type :: nat
  fi_dir :: bool
  fi_size :: int
  fi_updated_at :: int
  fi_share_fid_token :: string
  fi_obj_category :: "string option"

text \<open>\<open>_convert_share_item\<close>; \<open>parse_time\<close> is \<open>_parse_time\<close>, a date parser.\<close>

definition convert_share_item :: "(string \<Rightarrow> int) \<Rightarrow> share_item \<Rightarrow> file_info" where
  "convert_share_item parse_time item =
     (let is_folder = (it_type item = ''folder'') in
      \<lparr>fi_fid = it_file_id item, fi_file_name = it_name item,
       fi_file_type = (if is_folder then 0 else 1), fi_dir = is_folder,
       fi_size = it_size item, fi_updated_at = parse_time (it_updated_at item),
       fi_share_fid_token = it_file_id item, fi_obj_category = None\<rparr>)"

text \<open>
  What a listing loop ends with: the error dictionary (its message), or the merged
  list. A loop that may not end takes fuel, one unit for each request, and is \<open>None\<close>
  when the fuel runs out.
\<close>

datatype listing = ListingError string | ListingOk "file_info list"

text \<open>
  The \<open>while True\<close> loop of \<open>AliyunAdapter.get_detail\<close> (lines 404-432): an error
  code ends it with the error dictionary, an exception with the dictionary of the
  \<open>except\<close> branch; otherwise the items are appended and the loop goes on exactly
  while \<open>next_marker\<close> is not empty.
\<close>

fun aliyun_get_detail_loop ::
  "nat \<Rightarrow> (string \<Rightarrow> int) \<Rightarrow> share_provider \<Rightarrow> string \<Rightarrow> string \<Rightarrow> file_info list \<Rightarrow> listing option" where
  "aliyun_get_detail_loop 0 parse_time list_by_share parent_file_id marker file_list = None"
| "aliyun_get_detail_loop (Suc fuel) parse_time list_by_share parent_file_id marker file_list =
     (case list_by_share parent_file_id marker of
        Raised e \<Rightarrow> Some (ListingError e)
      | Returned data \<Rightarrow>
          (if sp_code data \<noteq> [] then Some (ListingError (sp_code data))
           else
             (let file_list' = file_list @ map (convert_share_item parse_time) (sp_items data)
              in if sp_next_marker data = [] then Some (ListingOk file_list')
                 else aliyun_get_detail_loop fuel parse_time list_by_share parent_file_id
                        (sp_next_marker data) file_list')))"

text \<open>
  The result of \<open>get_detail\<close>: the error dictionary, or the list with the breadcrumb
  (\<open>metadata._total\<close> is the length of the list).
\<close>

datatype detail = DetailError string | DetailOk "file_info list" "crumb list"

text \<open>
  \<open>AliyunAdapter.get_detail\<close> (lines 389-447). \<open>get_share_path\<close> is
  \<open>_get_share_path\<close>, called after the loop when the full path is asked for.
\<close>

definition aliyun_get_detail ::
  "nat \<Rightarrow> (string \<Rightarrow> int) \<Rightarrow> share_provider \<Rightarrow> (string \<Rightarrow> crumb list) \<Rightarrow> string \<Rightarrow> bool \<Rightarrow> detail option" where
  "aliyun_get_detail fuel parse_time list_by_share get_share_path pdir_fid fetch_share_full_path =
     (let parent_file_id = (if pdir_fid \<noteq> [] \<and> pdir_fid \<noteq> ''0'' then pdir_fid else ''root'') in
      case aliyun_get_detail_loop fuel parse_time list_by_share parent_file_id [] [] of
        None \<Rightarrow> None
      | Some (ListingError e) \<Rightarrow> Some (DetailError e)
      | Some (ListingOk file_list) \<Rightarrow>
          Some (DetailOk file_list
                  (if fetch_share_full_path \<and> parent_file_id \<noteq> ''root''
                   then get_share_path parent_file_id else [])))"

text \<open>
  The \<open>for item in items\<close> loop of \<open>_bfs_share_path\<close> (lines 527-540): the target
  returns at once, a folder not yet visited is marked and queued.
\<close>

datatype 'q scan = Found "crumb list" | Next 'q

fun aliyun_scan ::
  "string \<Rightarrow> crumb list \<Rightarrow> share_item list \<Rightarrow> string set \<times> (string \<times> crumb list) list \<Rightarrow>
   (string set \<times> (string \<times> crumb list) list) scan" where
  "aliyun_scan target current_path [] (visited, queue) = Next (visited, queue)"
| "aliyun_scan target current_path (item # items) (visited, queue) =
     (if it_file_id item = target
      then Found (current_path @ [(it_file_id item, it_name item)])
      else if it_type item = ''folder'' \<and> it_file_id item \<notin> visited
      then aliyun_scan target current_path items
             (insert (it_file_id item) visited,
              queue @ [(it_file_id item, current_path @ [(it_file_id item, it_name item)])])
      else aliyun_scan target current_path items (visited, queue))"

text \<open>
  The \<open>while queue\<close> loop of \<open>_bfs_share_path\<close> (lines 506-545), one unit of fuel
  for each container popped. The result is \<open>None\<close> when the fuel runs out, else the
  returned breadcrumb (\<open>[]\<close> when the queue empties); the second component is the
  list of the container ids listed so far, in order: it is not a variable of the source,
  it records the requests the loop makes.
\<close>

fun aliyun_bfs_loop ::
  "nat \<Rightarrow> share_provider \<Rightarrow> string \<Rightarrow> (string \<times> crumb list) list \<Rightarrow> string set \<Rightarrow> string list \<Rightarrow>
   crumb list option \<times> string list" where
  "aliyun_bfs_loop fuel list_by_share target [] visited listed = (Some [], listed)"
| "aliyun_bfs_loop 0 list_by_share target (q # queue) visited listed = (None, listed)"
| "aliyun_bfs_loop (Suc fuel) list_by_share target ((current_id, current_path) # queue) visited listed =
     (case list_by_share current_id [] of
        Raised e \<Rightarrow> aliyun_bfs_loop fuel list_by_share target queue visited (listed @ [current_id])
      | Returned data \<Rightarrow>
          (if sp_code data \<noteq> []
           then aliyun_bfs_loop fuel list_by_share target queue visited (listed @ [current_id])
           else
             (case aliyun_scan target current_path (sp_items data) (visited, queue) of
                Found path \<Rightarrow> (Some path, listed @ [current_id])
              | Next (visited', queue') \<Rightarrow>
                  aliyun_bfs_loop fuel list_by_share target queue' visited' (listed @ [current_id]))))"

definition bfs_share_path ::
  "nat \<Rightarrow> share_provider \<Rightarrow> string \<Rightarrow> crumb list option \<times> string list" where
  "bfs_share_path fuel list_by_share target_file_id =
     aliyun_bfs_loop fuel list_by_share target_file_id [(''root'', [])] {''root''} []"

section \<open>Cloud115: get_detail and the BFS resolver\<close>

text \<open>
  An item of \<open>/webapi/share/snap\<close>: a folder has no \<open>fid\<close> key and its own id in
  \<open>cid\<close>. The response: \<open>state\<close>, \<open>error\<close> and \<open>data.list\<close>.
\<close>

record snap_item =
  si_fid :: "string option"
  si_cid :: string
  si_n :: string
  si_s :: int
  si_t :: int
  si_ico :: string

record snap_page =
  sn_state :: bool
  sn_error :: "string option"
  sn_list :: "snap_item list"

text \<open>
  The provider: \<open>snap cid offset\<close> is the GET with \<open>limit = 50\<close> and \<open>_safe_json\<close>;
  it raises or returns a page.
\<close>

type_synonym snap_provider = "string \<Rightarrow> nat \<Rightarrow> snap_page outcome"

definition snap_limit :: nat where
  "snap_limit = 50"

text \<open>
  \<open>Cloud115Adapter._convert_share_item\<close>; \<open>get_category\<close> is \<open>_get_category\<close>, a
  table from icon names to categories.
\<close>

definition convert_snap_item :: "(string \<Rightarrow> string) \<Rightarrow> snap_item \<Rightarrow> file_info" where
  "convert_snap_item get_category item =
     (let is_dir = (si_fid item = None);
          own_id = (case si_fid item of None \<Rightarrow> si_cid item | Some f \<Rightarrow> f) in
      \<lparr>fi_fid = own_id, fi_file_name = si_n item,
       fi_file_type = (if is_dir then 0 else 1), fi_dir = is_dir,
       fi_size = si_s item, fi_updated_at = si_t item * 1000,
       fi_share_fid_token = own_id, fi_obj_category = Some (get_category (si_ico item))\<rparr>)"

text \<open>
  The \<open>while True\<close> loop of \<open>Cloud115Adapter.get_detail\<close> (lines 193-221): a false
  \<open>state\<close> or an exception ends it with the error dictionary; an empty page ends it;
  otherwise the items are appended and the loop goes on unless the page is shorter than
  the limit.
\<close>

fun cloud115_get_detail_loop ::
  "nat \<Rightarrow> (string \<Rightarrow> string) \<Rightarrow> snap_provider \<Rightarrow> string \<Rightarrow> nat \<Rightarrow> file_info list \<Rightarrow> listing option" where
  "cloud115_get_detail_loop 0 get_category snap cid offset list_merge = None"
| "cloud115_get_detail_loop (Suc fuel) get_category snap cid offset list_merge =
     (case snap cid offset of
        Raised e \<Rightarrow> Some (ListingError e)
      | Returned data \<Rightarrow>
          (if \<not> sn_state data
           then Some (ListingError (case sn_error data of None \<Rightarrow> [] | Some e \<Rightarrow> e))
           else if sn_list data = [] then Some (ListingOk list_merge)
           else
             (let list_merge' = list_merge @ map (convert_snap_item get_category) (sn_list data)
              in if length (sn_list data) < snap_limit then Some (ListingOk list_merge')
                 else cloud115_get_detail_loop fuel get_category snap cid (offset + snap_limit) list_merge')))"

text \<open>
  The \<open>for item in file_list\<close> loop of \<open>_resolve_share_path\<close> (lines 269-280): files
  are skipped, the target folder returns at once, every other folder is queued for the
  next level.
\<close>

fun cloud115_scan ::
  "string \<Rightarrow> crumb list \<Rightarrow> snap_item list \<Rightarrow> (string \<times> crumb list) list \<Rightarrow>
   (string \<times> crumb list) list scan" where
  "cloud115_scan target_cid current_path [] next_queue = Next next_queue"
| "cloud115_scan target_cid current_path (item # items) next_queue =
     (if si_fid item \<noteq> None then cloud115_scan target_cid current_path items next_queue
      else if si_cid item = target_cid then Found (current_path @ [(si_cid item, si_n item)])
      else cloud115_scan target_cid current_path items
             (next_queue @ [(si_cid item, current_path @ [(si_cid item, si_n item)])]))"

text \<open>
  The pagination of one container (lines 252-285), with fuel; the offsets requested are
  appended to \<open>listed\<close> together with the container id, which records the requests.
\<close>

fun cloud115_pages ::
  "nat \<Rightarrow> snap_provider \<Rightarrow> string \<Rightarrow> string \<Rightarrow> crumb list \<Rightarrow> nat \<Rightarrow>
   (string \<times> crumb list) list \<Rightarrow> (string \<times> nat) list \<Rightarrow>
   (string \<times> crumb list) list scan option \<times> (string \<times> nat) list" where
  "cloud115_pages 0 snap target_cid current_cid current_path offset next_queue listed = (None, listed)"
| "cloud115_pages (Suc fuel) snap target_cid current_cid current_path offset next_queue listed =
     (case snap current_cid offset of
        Raised e \<Rightarrow> (Some (Next next_queue), listed @ [(current_cid, offset)])
      | Returned data \<Rightarrow>
          (if \<not> sn_state data then (Some (Next next_queue), listed @ [(current_cid, offset)])
           else if sn_list data = [] then (Some (Next next_queue), listed @ [(current_cid, offset)])
           else
             (case cloud115_scan target_cid current_path (sn_list data) next_queue of
                Found path \<Rightarrow> (Some (Found path), listed @ [(current_cid, offset)])
              | Next next_queue' \<Rightarrow>
                  (if length (sn_list data) < snap_limit
                   then (Some (Next next_queue'), listed @ [(current_cid, offset)])
                   else cloud115_pages fuel snap target_cid current_cid current_path
                          (offset + snap_limit) next_queue' (listed @ [(current_cid, offset)])))))"

text \<open>The \<open>for current_cid, current_path in queue\<close> loop of one level.\<close>

fun cloud115_level ::
  "nat \<Rightarrow> snap_provider \<Rightarrow> string \<Rightarrow> (string \<times> crumb list) list \<Rightarrow>
   (string \<times> crumb list) list \<Rightarrow> (string \<times> nat) list \<Rightarrow>
   (string \<times> crumb list) list scan option \<times> (string \<times> nat) list" where
  "cloud115_level fuel snap target_cid [] next_queue listed = (Some (Next next_queue), listed)"
| "cloud115_level fuel snap target_cid ((current_cid, current_path) # queue) next_queue listed =
     (case cloud115_pages fuel snap target_cid current_cid current_path 0 next_queue listed of
        (None, listed') \<Rightarrow> (None, listed')
      | (Some (Found path), listed') \<Rightarrow> (Some (Found path), listed')
      | (Some (Next next_queue'), listed') \<Rightarrow>
          cloud115_level fuel snap target_cid queue next_queue' listed')"

text \<open>
  The \<open>for _ in range(max_depth)\<close> loop: after \<open>max_depth\<close> levels, or when a level
  queues nothing, the function returns \<open>[]\<close>.
\<close>

fun cloud115_levels ::
  "nat \<Rightarrow> snap_provider \<Rightarrow> string \<Rightarrow> nat \<Rightarrow> (string \<times> crumb list) list \<Rightarrow> (string \<times> nat) list \<Rightarrow>
   crumb list option \<times> (string \<times> nat) list" where
  "cloud115_levels fuel snap target_cid 0 queue listed = (Some [], listed)"
| "cloud115_levels fuel snap target_cid (Suc depth) queue listed =
     (case cloud115_level fuel snap target_cid queue [] listed of
        (None, listed') \<Rightarrow> (None, listed')
      | (Some (Found path), listed') \<Rightarrow> (Some path, listed')
      | (Some (Next next_queue), listed') \<Rightarrow>
          (if next_queue = [] then (Some [], listed')
           else cloud115_levels fuel snap target_cid depth next_queue listed'))"

definition resolve_share_path ::
  "nat \<Rightarrow> snap_provider \<Rightarrow> string \<Rightarrow> nat \<Rightarrow> crumb list option \<times> (string \<times> nat) list" where
  "resolve_share_path fuel snap target_cid max_depth =
     cloud115_levels fuel snap target_cid max_depth [([], [])] []"

text \<open>The default of the parameter \<open>max_depth\<close>, which every caller uses.\<close>

definition default_max_depth :: nat where
  "default_max_depth = 5"

section \<open>The paginated iterator as the specification words it\<close>

text \<open>
  The iterator of the specification over Aliyun's pages: request a page; on an error,
  stop with the error; otherwise append the items and continue while a next marker is
  present and the page was not empty.
\<close>

fun spec_iterator ::
  "nat \<Rightarrow> (string \<Rightarrow> int) \<Rightarrow> share_provider \<Rightarrow> string \<Rightarrow> string \<Rightarrow> file_info list \<Rightarrow> listing option" where
  "spec_iterator 0 parse_time list_by_share parent_file_id marker file_list = None"
| "spec_iterator (Suc fuel) parse_time list_by_share parent_file_id marker file_list =
     (case list_by_share parent_file_id marker of
        Raised e \<Rightarrow> Some (ListingError e)
      | Returned data \<Rightarrow>
          (if sp_code data \<noteq> [] then Some (ListingError (sp_code data))
           else
             (let file_list' = file_list @ map (convert_share_item parse_time) (sp_items data)
              in if sp_next_marker data \<noteq> [] \<and> sp_items data \<noteq> []
                 then spec_iterator fuel parse_time list_by_share parent_file_id
                        (sp_next_marker data) file_list'
                 else Some (ListingOk file_list'))))"

text \<open>
  A finite run of pages as a provider serves it. By markers: every page but the last
  names the marker of the next one, the last has none. By offsets: every page but the
  last is full (not shorter than the limit), the last is short or empty.
\<close>

fun marker_run :: "share_provider \<Rightarrow> string \<Rightarrow> string \<Rightarrow> share_page list \<Rightarrow> bool" where
  "marker_run list_by_share parent_file_id marker [] = False"
| "marker_run list_by_share parent_file_id marker [p] =
     (list_by_share parent_file_id marker = Returned p \<and> sp_code p = [] \<and> sp_next_marker p = [])"
| "marker_run list_by_share parent_file_id marker (p # q # ps) =
     (list_by_share parent_file_id marker = Returned p \<and> sp_code p = [] \<and> sp_next_marker p \<noteq> [] \<and>
      marker_run list_by_share parent_file_id (sp_next_marker p) (q # ps))"

fun offset_run :: "snap_provider \<Rightarrow> string \<Rightarrow> nat \<Rightarrow> snap_page list \<Rightarrow> bool" where
  "offset_run snap cid offset [] = False"
| "offset_run snap cid offset [p] =
     (snap cid offset = Returned p \<and> sn_state p \<and> length (sn_list p) < snap_limit)"
| "offset_run snap cid offset (p # q # ps) =
     (snap cid offset = Returned p \<and> sn_state p \<and> \<not> length (sn_list p) < snap_limit \<and>
      offset_run snap cid (offset + snap_limit) (q # ps))"

section \<open>Example providers for the listing loops\<close>

definition example_item :: share_item where
  "example_item = \<lparr>it_file_id = ''f1'', it_name = ''a.mkv'', it_type = ''file'', it_size = 7,
                    it_updated_at = []\<rparr>"

text \<open>An empty first page that names a marker, then a page with one item.\<close>

definition empty_then_one :: share_provider where
  "empty_then_one parent_file_id marker =
     (if marker = [] then Returned \<lparr>sp_code = [], sp_items = [], sp_next_marker = ''m1''\<rparr>
      else Returned \<lparr>sp_code = [], sp_items = [example_item], sp_next_marker = []\<rparr>)"

text \<open>Pages of 100, 100 and 37 items, chained by markers.\<close>

definition three_pages :: share_provider where
  "three_pages parent_file_id marker =
     (if marker = [] then Returned \<lparr>sp_code = [], sp_items = replicate 100 example_item, sp_next_marker = ''m1''\<rparr>
      else if marker = ''m1'' then Returned \<lparr>sp_code = [], sp_items = replicate 100 example_item, sp_next_marker = ''m2''\<rparr>
      else Returned \<lparr>sp_code = [], sp_items = replicate 37 example_item, sp_next_marker = []\<rparr>)"

definition example_snap_item :: snap_item where
  "example_snap_item = \<lparr>si_fid = Some ''9'', si_cid = ''1'', si_n = ''a.mkv'', si_s = 7, si_t = 0, si_ico = ''mkv''\<rparr>"

text \<open>Pages of 50, 50 and 37 items at the offsets 0, 50 and 100.\<close>

definition three_snaps :: snap_provider where
  "three_snaps cid offset =
     Returned \<lparr>sn_state = True, sn_error = None,
               sn_list = replicate (if offset < 100 then 50 else 37) example_snap_item\<rparr>"

section \<open>Invariants and providers for the BFS resolvers\<close>

text \<open>
  The invariant of the \<open>while queue\<close> loop of \<open>_bfs_share_path\<close>: the queued ids are
  distinct and visited, the listed ids are distinct, visited and no longer queued.
\<close>

definition bfs_inv :: "(string \<times> crumb list) list \<Rightarrow> string set \<Rightarrow> string list \<Rightarrow> bool" where
  "bfs_inv queue visited listed =
     (distinct (map fst queue) \<and> fst ` set queue \<subseteq> visited \<and> set listed \<subseteq> visited \<and>
      set listed \<inter> fst ` set queue = {} \<and> distinct listed)"

text \<open>Every folder id the provider returns lies in the set \<open>U\<close>.\<close>

definition folder_ids_in :: "share_provider \<Rightarrow> string set \<Rightarrow> bool" where
  "folder_ids_in list_by_share U =
     (\<forall>c data i. list_by_share c [] = Returned data \<and> i \<in> set (sp_items data) \<and>
                 it_type i = ''folder'' \<longrightarrow> it_file_id i \<in> U)"

text \<open>
  A response that ends the pagination of \<open>_resolve_share_path\<close>: an exception, a
  false \<open>state\<close>, or a page shorter than the limit (an empty one included);
  \<open>pages_end snap fuel\<close>: every container has such a page among its first \<open>fuel\<close>.
\<close>

definition last_page :: "snap_page outcome \<Rightarrow> bool" where
  "last_page r = (case r of Raised e \<Rightarrow> True
                  | Returned d \<Rightarrow> \<not> sn_state d \<or> length (sn_list d) < snap_limit)"

definition pages_end :: "snap_provider \<Rightarrow> nat \<Rightarrow> bool" where
  "pages_end snap fuel = (\<forall>cid. \<exists>k<fuel. last_page (snap cid (k * snap_limit)))"

text \<open>Items and providers used as examples.\<close>

definition folder_item :: "string \<Rightarrow> string \<Rightarrow> share_item" where
  "folder_item i n = \<lparr>it_file_id = i, it_name = n, it_type = ''folder'', it_size = 0, it_updated_at = []\<rparr>"

definition file_item :: "string \<Rightarrow> string \<Rightarrow> share_item" where
  "file_item i n = \<lparr>it_file_id = i, it_name = n, it_type = ''file'', it_size = 1, it_updated_at = []\<rparr>"

definition folder_snap :: "string \<Rightarrow> string \<Rightarrow> snap_item" where
  "folder_snap c n = \<lparr>si_fid = None, si_cid = c, si_n = n, si_s = 0, si_t = 0, si_ico = []\<rparr>"

text \<open>The root lists the folder 7 twice; the folder is empty.\<close>

definition dup_snap :: snap_provider where
  "dup_snap cid offset =
     Returned \<lparr>sn_state = True, sn_error = None,
               sn_list = (if cid = [] then [folder_snap ''7'' ''a'', folder_snap ''7'' ''a''] else [])\<rparr>"

text \<open>Self-referential data: every container, 7 included, lists the folder 7.\<close>

definition loop_snap :: snap_provider where
  "loop_snap cid offset =
     Returned \<lparr>sn_state = True, sn_error = None, sn_list = [folder_snap ''7'' ''a'']\<rparr>"

definition loop_share :: share_provider where
  "loop_share parent_file_id marker =
     Returned \<lparr>sp_code = [], sp_items = [folder_item ''7'' ''a'', folder_item ''7'' ''a''],
               sp_next_marker = []\<rparr>"

text \<open>
  A chain of folders d, dd, ... below the root; Aliyun's ends after eleven folders with
  the file \<open>target\<close>, at depth 12.
\<close>

definition chain_share :: share_provider where
  "chain_share parent_file_id marker =
     Returned \<lparr>sp_code = [],
               sp_items = (if parent_file_id = ''root'' then [folder_item ''d'' ''n'']
                           else if length parent_file_id < 11 then [folder_item (parent_file_id @ ''d'') ''n'']
                           else [file_item ''target'' ''t'']),
               sp_next_marker = []\<rparr>"

definition chain_snap :: snap_provider where
  "chain_snap cid offset =
     Returned \<lparr>sn_state = True, sn_error = None, sn_list = [folder_snap (cid @ ''d'') ''n'']\<rparr>"

section \<open>Share trees\<close>

text \<open>
  A tree of a share as the provider holds it: an item and, for a folder, its children.
  \<open>node_ids\<close> lists the ids of a tree, \<open>node_paths t\<close> the breadcrumbs, from the
  tree's root down, of the nodes whose id is \<open>t\<close>.
\<close>

datatype node = Node (node_item: share_item) (node_children: "node list")

definition crumb_of :: "share_item \<Rightarrow> crumb" where
  "crumb_of i = (it_file_id i, it_name i)"

fun node_ids :: "node \<Rightarrow> string list" where
  "node_ids (Node i kids) = it_file_id i # concat (map node_ids kids)"

definition forest_ids :: "node list \<Rightarrow> string list" where
  "forest_ids ns = concat (map node_ids ns)"

fun node_paths :: "string \<Rightarrow> node \<Rightarrow> crumb list list" where
  "node_paths t (Node i kids) =
     (if it_file_id i = t then [[crumb_of i]] else []) @
     map ((#) (crumb_of i)) (concat (map (node_paths t) kids))"

definition forest_paths :: "string \<Rightarrow> node list \<Rightarrow> crumb list list" where
  "forest_paths t ns = concat (map (node_paths t) ns)"

text \<open>
  The provider serves a forest: listing \<open>root\<close> gives the top-level items, listing a
  folder gives its children's items, each in one page without error code; a file has no
  children.
\<close>

definition lists :: "share_provider \<Rightarrow> string \<Rightarrow> node list \<Rightarrow> bool" where
  "lists list_by_share c kids =
     (case list_by_share c [] of
        Raised e \<Rightarrow> False
      | Returned d \<Rightarrow> sp_code d = [] \<and> sp_items d = map node_item kids)"

fun served :: "share_provider \<Rightarrow> node \<Rightarrow> bool" where
  "served list_by_share (Node i kids) =
     ((if it_type i = ''folder'' then lists list_by_share (it_file_id i) kids else kids = []) \<and>
      (\<forall>k \<in> set kids. served list_by_share k))"

definition serves_tree :: "share_provider \<Rightarrow> node list \<Rightarrow> bool" where
  "serves_tree list_by_share forest =
     (lists list_by_share ''root'' forest \<and> (\<forall>n \<in> set forest. served list_by_share n))"

text \<open>
  The queue of \<open>_bfs_share_path\<close> read against the tree: each queued container with
  its breadcrumb and the children still to be listed. \<open>expand p k\<close> are the entries the
  loop queues for the folders among \<open>k\<close>.
\<close>

type_synonym pending = "string \<times> crumb list \<times> node list"

definition qids :: "pending list \<Rightarrow> string list" where
  "qids aq = concat (map (\<lambda>(c, p, k). forest_ids k) aq)"

definition qpaths :: "string \<Rightarrow> pending list \<Rightarrow> crumb list list" where
  "qpaths t aq = concat (map (\<lambda>(c, p, k). map ((@) p) (forest_paths t k)) aq)"

definition qconc :: "pending list \<Rightarrow> (string \<times> crumb list) list" where
  "qconc aq = map (\<lambda>(c, p, k). (c, p)) aq"

definition qok :: "share_provider \<Rightarrow> pending list \<Rightarrow> bool" where
  "qok req aq = (\<forall>(c, p, k) \<in> set aq. lists req c k \<and> (\<forall>n \<in> set k. served req n))"

definition expand :: "crumb list \<Rightarrow> node list \<Rightarrow> pending list" where
  "expand p k =
     map (\<lambda>n. (it_file_id (node_item n), p @ [crumb_of (node_item n)], node_children n))
       (filter (\<lambda>n. it_type (node_item n) = ''folder'') k)"

text \<open>
  A tree of three levels: folder A holds the file t2 and folder B, B holds the file t3;
  the file t1 lies beside A.
\<close>

definition example_tree :: "node list" where
  "example_tree =
     [Node (folder_item ''a'' ''A'')
        [Node (file_item ''t2'' ''x.mkv'') [],
         Node (folder_item ''b'' ''B'') [Node (file_item ''t3'' ''y.mkv'') []]],
      Node (file_item ''t1'' ''top.txt'') []]"

definition tree_share :: share_provider where
  "tree_share parent_file_id marker =
     (if parent_file_id = ''root''
      then Returned \<lparr>sp_code = [], sp_items = [folder_item ''a'' ''A'', file_item ''t1'' ''top.txt''],
                     sp_next_marker = []\<rparr>
      else if parent_file_id = ''a''
      then Returned \<lparr>sp_code = [], sp_items = [file_item ''t2'' ''x.mkv'', folder_item ''b'' ''B''],
                     sp_next_marker = []\<rparr>
      else if parent_file_id = ''b''
      then Returned \<lparr>sp_code = [], sp_items = [file_item ''t3'' ''y.mkv''], sp_next_marker = []\<rparr>
      else Returned \<lparr>sp_code = ''NotFound.File'', sp_items = [], sp_next_marker = []\<rparr>)"

text \<open>
  A share whose root holds 101 files. The provider answers a request with at most a
  hundred entries and a marker for the rest: the first page has the files f, ff, ... (one
  to a hundred letters) and the marker m1, the page after m1 has the file \<open>target\<close>.
  \<open>wide_tree\<close> is the tree of this share.
\<close>

definition wide_items :: "share_item list" where
  "wide_items = map (\<lambda>k. file_item (replicate (Suc k) CHR ''f'') ''n'') [0..<100]"

definition wide_share :: share_provider where
  "wide_share parent_file_id marker =
     (if parent_file_id = ''root'' \<and> marker = []
      then Returned \<lparr>sp_code = [], sp_items = wide_items, sp_next_marker = ''m1''\<rparr>
      else if parent_file_id = ''root'' \<and> marker = ''m1''
      then Returned \<lparr>sp_code = [], sp_items = [file_item ''target'' ''t.mkv''], sp_next_marker = []\<rparr>
      else Returned \<lparr>sp_code = ''NotFound.File'', sp_items = [], sp_next_marker = []\<rparr>)"

definition wide_tree :: "node list" where
  "wide_tree = map (\<lambda>i. Node i []) (wide_items @ [file_item ''target'' ''t.mkv''])"

section \<open>Failures at the adapter boundary\<close>

text \<open>
  A parsed JSON body: a dictionary of string fields, or a value that is not a dictionary
  (with its truthiness). An HTTP response: \<open>http_json\<close> is \<open>None\<close> when
  \<open>resp.json()\<close> raises. A transport call raises or returns a response.
\<close>

datatype json = JNonDict bool | JDict "(string \<times> string) list"

record http_response =
  http_status :: nat
  http_json :: "json option"
  http_text :: string

type_synonym transport = "string \<Rightarrow> (string \<times> string) list \<Rightarrow> http_response outcome"

text \<open>
  The result dictionary of an operation (\<open>status\<close>, \<open>code\<close>, \<open>message\<close> and
  the string fields of \<open>data\<close>), and what an operation returns: such a dictionary, a
  list of (path, fid), or the provider's JSON.
\<close>

record tagged =
  tg_status :: "nat option"
  tg_code :: int
  tg_message :: string
  tg_data :: "(string \<times> string) list"

datatype op_result = Tagged tagged | Paths "(string \<times> string) list" | Json json

text \<open>
  Sequencing of calls that may raise, and \<open>try: ... except Exception as e\<close>.
\<close>

definition raise_bind :: "'a outcome \<Rightarrow> ('a \<Rightarrow> 'b outcome) \<Rightarrow> 'b outcome" where
  "raise_bind m f = (case m of Raised e \<Rightarrow> Raised e | Returned x \<Rightarrow> f x)"

definition except_all :: "'a outcome \<Rightarrow> (string \<Rightarrow> 'a) \<Rightarrow> 'a outcome" where
  "except_all m handler = (case m of Raised e \<Rightarrow> Returned (handler e) | Returned x \<Rightarrow> Returned x)"

text \<open>
  \<open>dict.get\<close> on a parsed body: an \<open>AttributeError\<close> on a value that is not a
  dictionary.
\<close>

definition json_get :: "json \<Rightarrow> string \<Rightarrow> string option outcome" where
  "json_get j key =
     (case j of
        JNonDict t \<Rightarrow> Raised ''AttributeError''
      | JDict kvs \<Rightarrow> Returned (map_of kvs key))"

text \<open>
  \<open>AliyunAdapter._check_response\<close> (lines 302-314): a body that does not parse
  becomes the \<open>ParseError\<close> dictionary; for a status other than 200, 201 and 202 the
  code and the message are read with \<open>data.get\<close> for the log, which raises when the
  body is not a dictionary; then the data are returned.
\<close>

definition check_response :: "http_response \<Rightarrow> json outcome" where
  "check_response resp =
     (let data = (case http_json resp of
                    None \<Rightarrow> JDict [(''code'', ''ParseError''), (''message'', take 200 (http_text resp))]
                  | Some parsed \<Rightarrow> parsed)
      in if http_status resp \<notin> {200, 201, 202}
         then raise_bind (json_get data ''code'') (\<lambda>code.
              raise_bind (json_get data ''message'') (\<lambda>message. Returned data))
         else Returned data)"

text \<open>
  \<open>_get_error_message\<close>, whose default is the UTF-8 text of the source followed by
  the code in parentheses; \<open>ERROR_CODES\<close> is the class's table.
\<close>

definition json_truthy :: "json \<Rightarrow> bool" where
  "json_truthy j = (case j of JNonDict t \<Rightarrow> t | JDict kvs \<Rightarrow> kvs \<noteq> [])"

definition get_error_message :: "(string \<rightharpoonup> string) \<Rightarrow> string \<Rightarrow> string" where
  "get_error_message ERROR_CODES code =
     (case ERROR_CODES code of
        Some m \<Rightarrow> m
      | None \<Rightarrow> [CHR 0xE6, CHR 0x9C, CHR 0xAA, CHR 0xE7, CHR 0x9F, CHR 0xA5,
                 CHR 0xE9, CHR 0x94, CHR 0x99, CHR 0xE8, CHR 0xAF, CHR 0xAF] @ '' ('' @ code @ '')'')"

text \<open>
  \<open>AliyunAdapter._request\<close> with \<open>ignore_auth=True\<close> (no token check; an exception
  of the session is logged and raised again), \<open>_get_share_info\<close> and
  \<open>_get_share_token\<close>.
\<close>

definition aliyun_request :: "transport \<Rightarrow> string \<Rightarrow> (string \<times> string) list \<Rightarrow> http_response outcome" where
  "aliyun_request post path body = post path body"

definition get_share_info :: "transport \<Rightarrow> string \<Rightarrow> json outcome" where
  "get_share_info post share_id =
     raise_bind (aliyun_request post ''/adrive/v2/share_link/get_share_by_anonymous'' [(''share_id'', share_id)])
       check_response"

definition get_share_token :: "transport \<Rightarrow> string \<Rightarrow> string \<Rightarrow> json outcome" where
  "get_share_token post share_id share_pwd =
     raise_bind (aliyun_request post ''/v2/share_link/get_share_token''
                   [(''share_id'', share_id), (''share_pwd'', share_pwd)])
       check_response"

text \<open>
  The test \<open>if not x or x.get("code")\<close> of \<open>get_stoken\<close> with the dictionary it
  returns (lines 345-351 and 355-361): \<open>None\<close> when the test is false.
\<close>

definition failure_of :: "(string \<rightharpoonup> string) \<Rightarrow> json \<Rightarrow> tagged option outcome" where
  "failure_of ERROR_CODES j =
     (if \<not> json_truthy j
      then Returned (Some \<lparr>tg_status = Some 400, tg_code = 1,
                           tg_message = get_error_message ERROR_CODES ''Unknown'', tg_data = []\<rparr>)
      else raise_bind (json_get j ''code'')
             (\<lambda>code. case code of
                 None \<Rightarrow> Returned None
               | Some c \<Rightarrow>
                   (if c = [] then Returned None
                    else Returned (Some \<lparr>tg_status = Some 400, tg_code = 1,
                                         tg_message = get_error_message ERROR_CODES c, tg_data = []\<rparr>))))"

text \<open>
  \<open>AliyunAdapter.get_stoken\<close> (lines 340-375): the body of the \<open>try\<close>, and the
  method with its \<open>except\<close>. Of \<open>data\<close> the fields \<open>stoken\<close> and \<open>share_id\<close>
  are kept.
\<close>

definition get_stoken_body ::
  "(string \<rightharpoonup> string) \<Rightarrow> transport \<Rightarrow> string \<Rightarrow> string \<Rightarrow> tagged outcome" where
  "get_stoken_body ERROR_CODES post pwd_id passcode =
     raise_bind (get_share_info post pwd_id) (\<lambda>share_info.
     raise_bind (failure_of ERROR_CODES share_info) (\<lambda>failed.
       case failed of
         Some t \<Rightarrow> Returned t
       | None \<Rightarrow>
           raise_bind (get_share_token post pwd_id passcode) (\<lambda>share_token.
           raise_bind (failure_of ERROR_CODES share_token) (\<lambda>failed'.
             case failed' of
               Some t \<Rightarrow> Returned t
             | None \<Rightarrow>
                 raise_bind (json_get share_token ''share_token'') (\<lambda>st.
                   Returned \<lparr>tg_status = Some 200, tg_code = 0, tg_message = ''success'',
                             tg_data = [(''stoken'', (case st of None \<Rightarrow> [] | Some s \<Rightarrow> s)),
                                        (''share_id'', pwd_id)]\<rparr>)))))"

definition get_stoken ::
  "(string \<rightharpoonup> string) \<Rightarrow> transport \<Rightarrow> string \<Rightarrow> string \<Rightarrow> tagged outcome" where
  "get_stoken ERROR_CODES post pwd_id passcode =
     except_all (get_stoken_body ERROR_CODES post pwd_id passcode)
       (\<lambda>e. \<lparr>tg_status = Some 500, tg_code = 1, tg_message = e, tg_data = []\<rparr>)"

text \<open>
  \<open>XunleiAdapter._request\<close> (lines 281-298): \<open>tokens_valid\<close> is the result of
  \<open>_ensure_tokens_valid()\<close>, \<open>send\<close> the call of the session.
\<close>

definition xunlei_request :: "bool \<Rightarrow> http_response outcome \<Rightarrow> json outcome" where
  "xunlei_request tokens_valid send =
     (if \<not> tokens_valid
      then Returned (JDict [(''error'', ''TokenInvalid''),
                            (''error_description'', ''Token '' @ [CHR 0xE6, CHR 0x97, CHR 0xA0, CHR 0xE6, CHR 0x95, CHR 0x88])])
      else except_all
             (raise_bind send (\<lambda>resp.
                case http_json resp of
                  None \<Rightarrow> Raised ''JSONDecodeError''
                | Some j \<Rightarrow> Returned j))
             (\<lambda>e. JDict [(''error'', ''RequestError''), (''error_description'', e)]))"

text \<open>
  \<open>AliyunAdapter.get_fids\<close> (lines 915-941): \<open>find_by_name parent name\<close> is
  \<open>_find_by_name\<close>, which catches every exception and gives the file id or nothing.
\<close>

fun strip_slash :: "string \<Rightarrow> string" where
  "strip_slash s = rev (dropWhile (\<lambda>c. c = CHR ''/'') (rev (dropWhile (\<lambda>c. c = CHR ''/'') s)))"

fun split_slash :: "string \<Rightarrow> string \<Rightarrow> string list" where
  "split_slash [] cur = [cur]"
| "split_slash (c # cs) cur =
     (if c = CHR ''/'' then cur # split_slash cs [] else split_slash cs (cur @ [c]))"

fun walk_parts :: "(string \<Rightarrow> string \<Rightarrow> string option) \<Rightarrow> string \<Rightarrow> string list \<Rightarrow> string option" where
  "walk_parts find_by_name parent_id [] = Some parent_id"
| "walk_parts find_by_name parent_id (name # parts) =
     (case find_by_name parent_id name of
        None \<Rightarrow> None
      | Some file_id \<Rightarrow> walk_parts find_by_name file_id parts)"

fun get_fids_loop :: "(string \<Rightarrow> string \<Rightarrow> string option) \<Rightarrow> string list \<Rightarrow> (string \<times> string) list" where
  "get_fids_loop find_by_name [] = []"
| "get_fids_loop find_by_name (path # file_paths) =
     (if path = [] \<or> path = ''/'' then (''/'', ''root'') # get_fids_loop find_by_name file_paths
      else
        (case walk_parts find_by_name ''root'' (filter (\<lambda>p. p \<noteq> []) (split_slash (strip_slash path) [])) of
           None \<Rightarrow> get_fids_loop find_by_name file_paths
         | Some fid \<Rightarrow> (path, fid) # get_fids_loop find_by_name file_paths))"

definition get_fids :: "bool \<Rightarrow> (string \<Rightarrow> string \<Rightarrow> string option) \<Rightarrow> string list \<Rightarrow> op_result outcome" where
  "get_fids token_ok find_by_name file_paths =
     (if \<not> token_ok then Returned (Paths []) else Returned (Paths (get_fids_loop find_by_name file_paths)))"

text \<open>Whether a result is a dictionary that carries a failure code and a message.\<close>

definition carries_code_and_message :: "op_result \<Rightarrow> bool" where
  "carries_code_and_message r =
     (case r of
        Tagged t \<Rightarrow> True
      | Json (JDict kvs) \<Rightarrow>
          (map_of kvs ''error'' \<noteq> None \<and> map_of kvs ''error_description'' \<noteq> None)
      | Json (JNonDict t) \<Rightarrow> False
      | Paths ps \<Rightarrow> False)"

text \<open>Example transports: a rejected extraction code, an expired link.\<close>

definition password_rejected :: transport where
  "password_rejected path body =
     (if path = ''/v2/share_link/get_share_token''
      then Returned \<lparr>http_status = 400,
                     http_json = Some (JDict [(''code'', ''InvalidResource.SharePwd'')]),
                     http_text = []\<rparr>
      else Returned \<lparr>http_status = 200, http_json = Some (JDict [(''share_name'', ''s'')]),
                     http_text = []\<rparr>)"

definition link_expired :: transport where
  "link_expired path body =
     Returned \<lparr>http_status = 404, http_json = Some (JDict [(''code'', ''NotFound.ShareLink'')]),
               http_text = []\<rparr>"

section \<open>Results about get_file_path\<close>




section \<open>Results about save_config\<close>

text \<open>
  C2 (the code at the failing input). For an account \<open>acc\<close> of the adapter's drive
  type named \<open>n\<close>, the write of token \<open>tok2\<close> stamped \<open>t2\<close> followed by the write of
  token \<open>tok1\<close> stamped \<open>t1\<close> leaves \<open>tok1\<close> and \<open>t1\<close> in the file, whatever the
  two stamps are: no stored stamp is compared.
\<close>

theorem save_config_last_write_wins:
  "save_config dt t1
     (fst (save_config dt t2 (Some [\<lparr>acc_name = Some (c # n), acc_drive_type = Some dt,
                                      acc_cookie = Some tok0, acc_enabled = None, acc_default = None,
                                      acc_token_updated_at = Some t0\<rparr>]) tok2 (Some (c # n))))
     tok1 (Some (c # n))
   = (Some [\<lparr>acc_name = Some (c # n), acc_drive_type = Some dt,
              acc_cookie = Some tok1, acc_enabled = None, acc_default = None,
              acc_token_updated_at = Some t1\<rparr>], True)"
  by (simp add: save_config_def truthy_def)


section \<open>Results about the adapter factory\<close>

lemma create_adapter_result_allocated:
  "factory_inv st \<Longrightarrow> create_adapter md5 mk dt cookie i st = (Some a, s1) \<Longrightarrow> a < next_ref s1"
  by (auto simp: create_adapter_def factory_inv_def Let_def split: option.splits)

lemma create_adapter_keeps_inv:
  "factory_inv st \<Longrightarrow> create_adapter md5 mk dt cookie i st = (r, s1) \<Longrightarrow> factory_inv s1"
  by (auto simp: create_adapter_def factory_inv_def Let_def less_Suc_eq split: option.splits if_splits)

lemma clear_cache_keeps_inv: "factory_inv (clear_cache st)"
  by (simp add: factory_inv_def clear_cache_def)

lemma create_adapter_cached_key:
  "create_adapter md5 mk dt cookie i st = (Some a, s1) \<Longrightarrow>
   instance_cache s1 (make_cache_key md5 dt cookie) = Some a \<and> ADAPTER_MAP s1 = ADAPTER_MAP st"
  by (auto simp: create_adapter_def Let_def split: option.splits)

text \<open>
  C1. In a state of the factory (\<open>factory_inv\<close>), for a drive type of the adapter map
  and any cookie: once \<open>create_adapter\<close> has returned an instance \<open>a\<close>, a second
  call with the same drive type and cookie returns the same reference \<open>a\<close> and leaves
  the factory as it is; the instance is cached under the key made of the drive type and
  the first 16 hex digits of the cookie's MD5; and after \<open>clear_cache\<close> a further
  call does not return \<open>a\<close>: when its constructor succeeds it returns the fresh
  reference \<open>next_ref\<close>, which is greater than \<open>a\<close>, holding the new object.
\<close>

theorem create_adapter_same_instance:
  assumes inv: "factory_inv st"
      and cls: "ADAPTER_MAP st drive_type = Some cls"
      and first: "create_adapter md5 mk1 drive_type cookie i st = (Some a, s1)"
  shows "create_adapter md5 mk2 drive_type cookie j s1 = (Some a, s1) \<and>
         instance_cache s1 (drive_type @ '':'' @ take 16 (md5 cookie)) = Some a \<and>
         fst (create_adapter md5 mk3 drive_type cookie k (clear_cache s1)) \<noteq> Some a \<and>
         (mk3 cls cookie k = Some obj \<longrightarrow>
            a < next_ref s1 \<and>
            fst (create_adapter md5 mk3 drive_type cookie k (clear_cache s1)) = Some (next_ref s1) \<and>
            objects (snd (create_adapter md5 mk3 drive_type cookie k (clear_cache s1))) (next_ref s1) = obj)"
proof -
  have key: "instance_cache s1 (make_cache_key md5 drive_type cookie) = Some a"
    and amap: "ADAPTER_MAP s1 = ADAPTER_MAP st"
    using create_adapter_cached_key [OF first] by auto
  have again: "create_adapter md5 mk2 drive_type cookie j s1 = (Some a, s1)"
    using key amap cls by (simp add: create_adapter_def Let_def)
  have lt: "a < next_ref s1"
    using create_adapter_result_allocated [OF inv first] .
  have third: "fst (create_adapter md5 mk3 drive_type cookie k (clear_cache s1)) \<noteq> Some a"
    using lt amap cls
    by (auto simp: create_adapter_def clear_cache_def Let_def split: option.splits)
  have fresh: "fst (create_adapter md5 mk3 drive_type cookie k (clear_cache s1)) = Some (next_ref s1) \<and>
     objects (snd (create_adapter md5 mk3 drive_type cookie k (clear_cache s1))) (next_ref s1) = obj"
    if "mk3 cls cookie k = Some obj"
    using that amap cls
    by (simp add: create_adapter_def clear_cache_def Let_def)
  show ?thesis using key again lt third fresh by (simp add: make_cache_key_def)
qed

theorem create_adapter_same_instance_witness:
  "fst (create_adapter (\<lambda>c. c) base_init ''115'' ''UID=1'' 0 init_factory) = Some 0 \<and>
   fst (create_adapter (\<lambda>c. c) base_init ''115'' ''UID=1'' 4
          (snd (create_adapter (\<lambda>c. c) base_init ''115'' ''UID=1'' 0 init_factory))) = Some 0 \<and>
   fst (create_adapter (\<lambda>c. c) base_init ''115'' ''UID=1'' 0
          (clear_cache (snd (create_adapter (\<lambda>c. c) base_init ''115'' ''UID=1'' 0 init_factory)))) = Some 1"
proof -
  let ?s1 = "snd (create_adapter (\<lambda>c. c) base_init ''115'' ''UID=1'' 0 init_factory)"
  have inv: "factory_inv init_factory"
    by (simp add: factory_inv_def init_factory_def)
  have cls: "ADAPTER_MAP init_factory ''115'' = Some Cloud115Adapter"
    by (simp add: init_factory_def default_ADAPTER_MAP_def)
  have r1: "fst (create_adapter (\<lambda>c. c) base_init ''115'' ''UID=1'' 0 init_factory) = Some 0"
    by (simp add: create_adapter_def init_factory_def default_ADAPTER_MAP_def base_init_def
        make_cache_key_def)
  then have first: "create_adapter (\<lambda>c. c) base_init ''115'' ''UID=1'' 0 init_factory = (Some 0, ?s1)"
    by (metis prod.collapse)
  have nr: "next_ref ?s1 = 1"
    by (simp add: create_adapter_def init_factory_def default_ADAPTER_MAP_def base_init_def
        make_cache_key_def)
  have mk: "base_init Cloud115Adapter ''UID=1'' 0 = Some \<lparr>DRIVE_TYPE = ''115'', ad_cookie = ''UID=1'',
      ad_index = 1, is_active = False, nickname = []\<rparr>"
    by (simp add: base_init_def class_drive_type_def py_strip_def is_space_def)
  from create_adapter_same_instance [OF inv cls first, where ?mk2.0 = base_init and j = 4
      and ?mk3.0 = base_init and k = 0
      and obj = "\<lparr>DRIVE_TYPE = ''115'', ad_cookie = ''UID=1'', ad_index = 1, is_active = False, nickname = []\<rparr>"]
    mk nr r1
  show ?thesis by simp
qed

section \<open>Results about the account manager\<close>

lemma first_active_None:
  "first_active objs dt rs = None \<longleftrightarrow>
   (\<forall>r \<in> set rs. \<not> (DRIVE_TYPE (objs r) = dt \<and> is_active (objs r)))"
  by (induction rs) auto

lemma first_active_first:
  "i < length rs \<Longrightarrow> DRIVE_TYPE (objs (rs ! i)) = dt \<and> is_active (objs (rs ! i)) \<Longrightarrow>
   \<forall>j<i. \<not> (DRIVE_TYPE (objs (rs ! j)) = dt \<and> is_active (objs (rs ! j))) \<Longrightarrow>
   first_active objs dt rs = Some (rs ! i)"
proof (induction rs arbitrary: i)
  case Nil
  then show ?case by simp
next
  case (Cons r rs)
  show ?case
  proof (cases i)
    case 0
    with Cons.prems show ?thesis by simp
  next
    case (Suc k)
    have head: "\<not> (DRIVE_TYPE (objs r) = dt \<and> is_active (objs r))"
      using Cons.prems(3) Suc by (metis nth_Cons_0 zero_less_Suc)
    have "first_active objs dt rs = Some (rs ! k)"
    proof (rule Cons.IH)
      show "k < length rs" using Cons.prems(1) Suc by simp
      show "DRIVE_TYPE (objs (rs ! k)) = dt \<and> is_active (objs (rs ! k))"
        using Cons.prems(2) Suc by simp
      show "\<forall>j<k. \<not> (DRIVE_TYPE (objs (rs ! j)) = dt \<and> is_active (objs (rs ! j)))"
      proof (intro allI impI)
        fix j assume "j < k"
        then have "Suc j < i" using Suc by simp
        with Cons.prems(3) show "\<not> (DRIVE_TYPE (objs (rs ! j)) = dt \<and> is_active (objs (rs ! j)))"
          by (metis nth_Cons_Suc)
      qed
    qed
    with head Suc show ?thesis by auto
  qed
qed

lemma dict_set_keys: "fst ` set (dict_set k v d) = insert k (fst ` set d)"
  by (induction d) (force+)

lemma load_accounts_new_names:
  "n \<in> fst ` set (adapters (snd (load_accounts_new md5 mk i accts (f, m)))) \<Longrightarrow>
   n \<in> fst ` set (adapters m) \<or>
   (\<exists>k<length accts. acc_enabled (accts ! k) \<noteq> Some False \<and> n = account_name_of (i + k) (accts ! k))"
proof (induction accts arbitrary: i f m)
  case Nil
  then show ?case by simp
next
  case (Cons account rest)
  show ?case
  proof (cases "acc_enabled account = Some False")
    case True
    with Cons.prems have "n \<in> fst ` set (adapters (snd (load_accounts_new md5 mk (Suc i) rest (f, m))))"
      by simp
    from Cons.IH [OF this] show ?thesis by (auto intro: exI [of _ "Suc k" for k])
  next
    case False
    then have en: "(case acc_enabled account of None \<Rightarrow> True | Some b \<Rightarrow> b)"
      by (cases "acc_enabled account") auto
    obtain r f' where cr: "create_adapter md5 mk (case acc_drive_type account of None \<Rightarrow> ''quark'' | Some d \<Rightarrow> d)
        (case acc_cookie account of None \<Rightarrow> [] | Some c \<Rightarrow> c) (int i) f = (r, f')"
      by (cases "create_adapter md5 mk (case acc_drive_type account of None \<Rightarrow> ''quark'' | Some d \<Rightarrow> d)
        (case acc_cookie account of None \<Rightarrow> [] | Some c \<Rightarrow> c) (int i) f") auto
    show ?thesis
    proof (cases r)
      case None
      with Cons.prems en cr have "n \<in> fst ` set (adapters (snd (load_accounts_new md5 mk (Suc i) rest (f', m))))"
        by (simp add: Let_def)
      from Cons.IH [OF this] show ?thesis by (auto intro: exI [of _ "Suc k" for k])
    next
      case (Some a)
      let ?m' = "\<lparr>adapters = dict_set (account_name_of i account) a (adapters m),
                  default_adapter = (if (case acc_default account of None \<Rightarrow> False | Some b \<Rightarrow> b) \<or> default_adapter m = None
                           then Some a else default_adapter m)\<rparr>"
      from Some Cons.prems en cr
      have "n \<in> fst ` set (adapters (snd (load_accounts_new md5 mk (Suc i) rest (f', ?m'))))"
        by (simp add: Let_def account_name_of_def)
      from Cons.IH [OF this]
      have "n \<in> fst ` set (adapters ?m') \<or>
        (\<exists>k<length rest. acc_enabled (rest ! k) \<noteq> Some False \<and> n = account_name_of (Suc i + k) (rest ! k))" .
      then show ?thesis
      proof
        assume "n \<in> fst ` set (adapters ?m')"
        then have "n = account_name_of i account \<or> n \<in> fst ` set (adapters m)"
          by (simp add: dict_set_keys)
        then show ?thesis using False by (auto intro: exI [of _ 0])
      next
        assume "\<exists>k<length rest. acc_enabled (rest ! k) \<noteq> Some False \<and> n = account_name_of (Suc i + k) (rest ! k)"
        then show ?thesis by (auto intro: exI [of _ "Suc k" for k])
      qed
    qed
  qed
qed

lemma load_accounts_names:
  assumes "load_accounts md5 mk cfg f0 = (f, m, ok)" and "cfg_accounts cfg = Some accts"
    and "n \<in> fst ` set (adapters m)"
  shows "\<exists>k<length accts. acc_enabled (accts ! k) \<noteq> Some False \<and> n = account_name_of k (accts ! k)"
proof -
  have "m = snd (load_accounts_new md5 mk 0 accts (f0, \<lparr>adapters = [], default_adapter = None\<rparr>))"
    using assms(1,2) by (auto simp: load_accounts_def Let_def split: prod.splits)
  with assms(3) load_accounts_new_names [of n md5 mk 0 accts f0 "\<lparr>adapters = [], default_adapter = None\<rparr>"]
  show ?thesis by simp
qed

lemma account_names_Cons:
  "account_names i (a # rest) = account_name_of i a # account_names (Suc i) rest"
  by (simp add: account_names_def)

lemma account_names_nth:
  "j < length accts \<Longrightarrow> account_names i accts ! j = account_name_of (i + j) (accts ! j)"
  by (simp add: account_names_def nth_enumerate_eq)

lemma account_names_length: "length (account_names i accts) = length accts"
  by (simp add: account_names_def)

lemma map_of_dict_set: "map_of (dict_set k v d) = (map_of d)(k \<mapsto> v)"
  by (induction d) auto

lemma dict_set_not_Nil: "dict_set k v d \<noteq> []"
  by (cases d) (auto split: if_splits)

lemma dict_set_hd: "d \<noteq> [] \<Longrightarrow> fst (hd d) \<noteq> k \<Longrightarrow> hd (dict_set k v d) = hd d"
  by (cases d) auto

lemma disjoint_insert_subset:
  "A \<inter> K = {} \<Longrightarrow> n \<notin> A \<Longrightarrow> K1 \<subseteq> insert n K \<Longrightarrow> A \<inter> K1 = {}"
  by auto

lemma load_accounts_new_step:
  "\<exists>f1 m1. load_accounts_new md5 mk i (account # rest) (f, m) =
             load_accounts_new md5 mk (Suc i) rest (f1, m1) \<and>
     (m1 = m \<or>
      (acc_enabled account \<noteq> Some False \<and>
       (\<exists>a. m1 = \<lparr>adapters = dict_set (account_name_of i account) a (adapters m),
                   default_adapter = (if acc_default account = Some True \<or> default_adapter m = None
                                      then Some a else default_adapter m)\<rparr>)))"
proof (cases "acc_enabled account = Some False")
  case True
  then show ?thesis by auto
next
  case False
  then have en: "(case acc_enabled account of None \<Rightarrow> True | Some b \<Rightarrow> b)"
    by (cases "acc_enabled account") auto
  have fl: "(case acc_default account of None \<Rightarrow> False | Some b \<Rightarrow> b) = (acc_default account = Some True)"
    by (cases "acc_default account") auto
  obtain r f' where cr: "create_adapter md5 mk (case acc_drive_type account of None \<Rightarrow> ''quark'' | Some d \<Rightarrow> d)
      (case acc_cookie account of None \<Rightarrow> [] | Some c \<Rightarrow> c) (int i) f = (r, f')"
    by (cases "create_adapter md5 mk (case acc_drive_type account of None \<Rightarrow> ''quark'' | Some d \<Rightarrow> d)
      (case acc_cookie account of None \<Rightarrow> [] | Some c \<Rightarrow> c) (int i) f") auto
  show ?thesis
  proof (cases r)
    case None
    with en cr show ?thesis by (auto simp: Let_def)
  next
    case (Some a)
    let ?m1 = "\<lparr>adapters = dict_set (account_name_of i account) a (adapters m),
                default_adapter = (if acc_default account = Some True \<or> default_adapter m = None
                                   then Some a else default_adapter m)\<rparr>"
    have "load_accounts_new md5 mk i (account # rest) (f, m) =
          load_accounts_new md5 mk (Suc i) rest (f', ?m1)"
      using Some en cr fl by (simp add: Let_def account_name_of_def)
    with False show ?thesis by blast
  qed
qed

lemma load_accounts_new_empty_iff:
  "(default_adapter m = None \<longleftrightarrow> adapters m = []) \<Longrightarrow>
   (default_adapter (snd (load_accounts_new md5 mk i accts (f, m))) = None \<longleftrightarrow>
    adapters (snd (load_accounts_new md5 mk i accts (f, m))) = [])"
proof (induction accts arbitrary: i f m)
  case Nil
  then show ?case by simp
next
  case (Cons account rest)
  from load_accounts_new_step [of md5 mk i account rest f m] obtain f1 m1 where
    st: "load_accounts_new md5 mk i (account # rest) (f, m) = load_accounts_new md5 mk (Suc i) rest (f1, m1)"
    and m1: "m1 = m \<or> (acc_enabled account \<noteq> Some False \<and>
       (\<exists>a. m1 = \<lparr>adapters = dict_set (account_name_of i account) a (adapters m),
                   default_adapter = (if acc_default account = Some True \<or> default_adapter m = None
                                      then Some a else default_adapter m)\<rparr>))"
    by blast
  have "default_adapter m1 = None \<longleftrightarrow> adapters m1 = []"
    using m1 Cons.prems by (auto simp: dict_set_not_Nil split: if_splits)
  from Cons.IH [OF this] st show ?case by simp
qed

lemma load_accounts_new_keeps_default:
  "default_adapter m \<noteq> None \<Longrightarrow>
   \<forall>j<length accts. acc_enabled (accts ! j) \<noteq> Some False \<longrightarrow> acc_default (accts ! j) \<noteq> Some True \<Longrightarrow>
   default_adapter (snd (load_accounts_new md5 mk i accts (f, m))) = default_adapter m"
proof (induction accts arbitrary: i f m)
  case Nil
  then show ?case by simp
next
  case (Cons account rest)
  from load_accounts_new_step [of md5 mk i account rest f m] obtain f1 m1 where
    st: "load_accounts_new md5 mk i (account # rest) (f, m) = load_accounts_new md5 mk (Suc i) rest (f1, m1)"
    and m1: "m1 = m \<or> (acc_enabled account \<noteq> Some False \<and>
       (\<exists>a. m1 = \<lparr>adapters = dict_set (account_name_of i account) a (adapters m),
                   default_adapter = (if acc_default account = Some True \<or> default_adapter m = None
                                      then Some a else default_adapter m)\<rparr>))"
    by blast
  have hd: "acc_enabled account \<noteq> Some False \<longrightarrow> acc_default account \<noteq> Some True"
    using Cons.prems(2) by auto
  have d1: "default_adapter m1 = default_adapter m"
    using m1 hd Cons.prems(1) by auto
  have rest: "\<forall>j<length rest. acc_enabled (rest ! j) \<noteq> Some False \<longrightarrow> acc_default (rest ! j) \<noteq> Some True"
    using Cons.prems(2) by auto
  from Cons.IH [of m1, OF _ rest] d1 Cons.prems(1) st show ?case by simp
qed

lemma load_accounts_new_map_of:
  "name \<notin> set (account_names i accts) \<Longrightarrow>
   map_of (adapters (snd (load_accounts_new md5 mk i accts (f, m)))) name = map_of (adapters m) name"
proof (induction accts arbitrary: i f m)
  case Nil
  then show ?case by simp
next
  case (Cons account rest)
  from load_accounts_new_step [of md5 mk i account rest f m] obtain f1 m1 where
    st: "load_accounts_new md5 mk i (account # rest) (f, m) = load_accounts_new md5 mk (Suc i) rest (f1, m1)"
    and m1: "m1 = m \<or> (acc_enabled account \<noteq> Some False \<and>
       (\<exists>a. m1 = \<lparr>adapters = dict_set (account_name_of i account) a (adapters m),
                   default_adapter = (if acc_default account = Some True \<or> default_adapter m = None
                                      then Some a else default_adapter m)\<rparr>))"
    by blast
  have ne: "name \<noteq> account_name_of i account" and nr: "name \<notin> set (account_names (Suc i) rest)"
    using Cons.prems by (auto simp: account_names_Cons)
  have "map_of (adapters m1) name = map_of (adapters m) name"
    using m1 ne by (auto simp: map_of_dict_set)
  with Cons.IH [OF nr, of f1 m1] st show ?case by simp
qed

lemma load_accounts_new_keys:
  "fst ` set (adapters (snd (load_accounts_new md5 mk i accts (f, m)))) \<subseteq>
   fst ` set (adapters m) \<union> set (account_names i accts)"
proof (induction accts arbitrary: i f m)
  case Nil
  then show ?case by simp
next
  case (Cons account rest)
  from load_accounts_new_step [of md5 mk i account rest f m] obtain f1 m1 where
    st: "load_accounts_new md5 mk i (account # rest) (f, m) = load_accounts_new md5 mk (Suc i) rest (f1, m1)"
    and m1: "m1 = m \<or> (acc_enabled account \<noteq> Some False \<and>
       (\<exists>a. m1 = \<lparr>adapters = dict_set (account_name_of i account) a (adapters m),
                   default_adapter = (if acc_default account = Some True \<or> default_adapter m = None
                                      then Some a else default_adapter m)\<rparr>))"
    by blast
  have "fst ` set (adapters m1) \<subseteq> insert (account_name_of i account) (fst ` set (adapters m))"
    using m1 dict_set_keys [of "account_name_of i account" _ "adapters m"] by (elim disjE conjE exE) (simp_all add: subset_insertI)
  with Cons.IH [of "Suc i" f1 m1] st show ?case
    by (auto simp: account_names_Cons)
qed

lemma load_accounts_new_marked:
  "distinct (account_names i accts) \<Longrightarrow>
   set (account_names i accts) \<inter> fst ` set (adapters m) = {} \<Longrightarrow>
   d < length accts \<Longrightarrow> acc_enabled (accts ! d) \<noteq> Some False \<Longrightarrow> acc_default (accts ! d) = Some True \<Longrightarrow>
   \<forall>j<length accts. d < j \<and> acc_enabled (accts ! j) \<noteq> Some False \<longrightarrow> acc_default (accts ! j) \<noteq> Some True \<Longrightarrow>
   account_name_of (i + d) (accts ! d) \<in> fst ` set (adapters (snd (load_accounts_new md5 mk i accts (f, m)))) \<Longrightarrow>
   default_adapter (snd (load_accounts_new md5 mk i accts (f, m))) =
     map_of (adapters (snd (load_accounts_new md5 mk i accts (f, m)))) (account_name_of (i + d) (accts ! d))"
proof (induction accts arbitrary: i f m d)
  case Nil
  then show ?case by simp
next
  case (Cons account rest)
  from load_accounts_new_step [of md5 mk i account rest f m] obtain f1 m1 where
    st: "load_accounts_new md5 mk i (account # rest) (f, m) = load_accounts_new md5 mk (Suc i) rest (f1, m1)"
    and m1: "m1 = m \<or> (acc_enabled account \<noteq> Some False \<and>
       (\<exists>a. m1 = \<lparr>adapters = dict_set (account_name_of i account) a (adapters m),
                   default_adapter = (if acc_default account = Some True \<or> default_adapter m = None
                                      then Some a else default_adapter m)\<rparr>))"
    by blast
  let ?m' = "snd (load_accounts_new md5 mk (Suc i) rest (f1, m1))"
  have dr: "distinct (account_names (Suc i) rest)"
    and n0: "account_name_of i account \<notin> set (account_names (Suc i) rest)"
    using Cons.prems(1) by (auto simp: account_names_Cons)
  have k0: "account_name_of i account \<notin> fst ` set (adapters m)"
    and kr: "set (account_names (Suc i) rest) \<inter> fst ` set (adapters m) = {}"
    using Cons.prems(2) by (auto simp: account_names_Cons)
  show ?case
  proof (cases d)
    case 0
    have en: "acc_enabled account \<noteq> Some False" and fl: "acc_default account = Some True"
      using Cons.prems(4,5) 0 by auto
    have later: "\<forall>j<length rest. acc_enabled (rest ! j) \<noteq> Some False \<longrightarrow> acc_default (rest ! j) \<noteq> Some True"
      using Cons.prems(6) 0 by auto
    have inm': "account_name_of i account \<in> fst ` set (adapters ?m')"
      using Cons.prems(7) 0 st by simp
    have "m1 \<noteq> m"
    proof
      assume "m1 = m"
      with load_accounts_new_keys [of md5 mk "Suc i" rest f1 m1] inm' k0 n0 show False by auto
    qed
    with m1 fl obtain a where a: "m1 = \<lparr>adapters = dict_set (account_name_of i account) a (adapters m),
                   default_adapter = Some a\<rparr>" by auto
    have "default_adapter ?m' = Some a"
      using load_accounts_new_keeps_default [of m1 rest md5 mk "Suc i" f1] later a by simp
    moreover have "map_of (adapters ?m') (account_name_of i account) = Some a"
      using load_accounts_new_map_of [OF n0, of md5 mk f1 m1] a by (simp add: map_of_dict_set)
    ultimately show ?thesis using st 0 by simp
  next
    case (Suc d')
    have kr1: "set (account_names (Suc i) rest) \<inter> fst ` set (adapters m1) = {}"
    proof -
      have "fst ` set (adapters m1) \<subseteq> insert (account_name_of i account) (fst ` set (adapters m))"
        using m1 dict_set_keys [of "account_name_of i account" _ "adapters m"] by (elim disjE conjE exE) (simp_all add: subset_insertI)
      then show ?thesis by (rule disjoint_insert_subset [OF kr n0])
    qed
    have "default_adapter ?m' = map_of (adapters ?m') (account_name_of (Suc i + d') (rest ! d'))"
    proof (rule Cons.IH [OF dr kr1])
      show "d' < length rest" using Cons.prems(3) Suc by simp
      show "acc_enabled (rest ! d') \<noteq> Some False" using Cons.prems(4) Suc by simp
      show "acc_default (rest ! d') = Some True" using Cons.prems(5) Suc by simp
      show "\<forall>j<length rest. d' < j \<and> acc_enabled (rest ! j) \<noteq> Some False \<longrightarrow> acc_default (rest ! j) \<noteq> Some True"
      proof (intro allI impI)
        fix j assume "j < length rest" "d' < j \<and> acc_enabled (rest ! j) \<noteq> Some False"
        with Cons.prems(6) [rule_format, of "Suc j"] Suc show "acc_default (rest ! j) \<noteq> Some True" by simp
      qed
      show "account_name_of (Suc i + d') (rest ! d') \<in> fst ` set (adapters ?m')"
        using Cons.prems(7) Suc st by simp
    qed
    then show ?thesis using st Suc by simp
  qed
qed

lemma load_accounts_new_first:
  "distinct (account_names i accts) \<Longrightarrow>
   set (account_names i accts) \<inter> fst ` set (adapters m) = {} \<Longrightarrow>
   \<forall>j<length accts. acc_enabled (accts ! j) \<noteq> Some False \<longrightarrow> acc_default (accts ! j) \<noteq> Some True \<Longrightarrow>
   (adapters m = [] \<and> default_adapter m = None) \<or>
   (adapters m \<noteq> [] \<and> default_adapter m = Some (snd (hd (adapters m)))) \<Longrightarrow>
   adapters (snd (load_accounts_new md5 mk i accts (f, m))) \<noteq> [] \<Longrightarrow>
   default_adapter (snd (load_accounts_new md5 mk i accts (f, m))) =
     Some (snd (hd (adapters (snd (load_accounts_new md5 mk i accts (f, m))))))"
proof (induction accts arbitrary: i f m)
  case Nil
  then show ?case by simp
next
  case (Cons account rest)
  from load_accounts_new_step [of md5 mk i account rest f m] obtain f1 m1 where
    st: "load_accounts_new md5 mk i (account # rest) (f, m) = load_accounts_new md5 mk (Suc i) rest (f1, m1)"
    and m1: "m1 = m \<or> (acc_enabled account \<noteq> Some False \<and>
       (\<exists>a. m1 = \<lparr>adapters = dict_set (account_name_of i account) a (adapters m),
                   default_adapter = (if acc_default account = Some True \<or> default_adapter m = None
                                      then Some a else default_adapter m)\<rparr>))"
    by blast
  have dr: "distinct (account_names (Suc i) rest)"
    and n0: "account_name_of i account \<notin> set (account_names (Suc i) rest)"
    using Cons.prems(1) by (auto simp: account_names_Cons)
  have k0: "account_name_of i account \<notin> fst ` set (adapters m)"
    and kr: "set (account_names (Suc i) rest) \<inter> fst ` set (adapters m) = {}"
    using Cons.prems(2) by (auto simp: account_names_Cons)
  have hd: "acc_enabled account \<noteq> Some False \<longrightarrow> acc_default account \<noteq> Some True"
    using Cons.prems(3) by auto
  have later: "\<forall>j<length rest. acc_enabled (rest ! j) \<noteq> Some False \<longrightarrow> acc_default (rest ! j) \<noteq> Some True"
    using Cons.prems(3) by auto
  have kr1: "set (account_names (Suc i) rest) \<inter> fst ` set (adapters m1) = {}"
  proof -
    have "fst ` set (adapters m1) \<subseteq> insert (account_name_of i account) (fst ` set (adapters m))"
      using m1 dict_set_keys [of "account_name_of i account" _ "adapters m"] by (elim disjE conjE exE) (simp_all add: subset_insertI)
    then show ?thesis by (rule disjoint_insert_subset [OF kr n0])
  qed
  have inv1: "(adapters m1 = [] \<and> default_adapter m1 = None) \<or>
     (adapters m1 \<noteq> [] \<and> default_adapter m1 = Some (snd (hd (adapters m1))))"
  proof (cases "m1 = m")
    case True
    with Cons.prems(4) show ?thesis by simp
  next
    case False
    with m1 hd obtain a where a: "m1 = \<lparr>adapters = dict_set (account_name_of i account) a (adapters m),
                   default_adapter = (if default_adapter m = None then Some a else default_adapter m)\<rparr>"
      by auto
    show ?thesis
    proof (cases "adapters m = []")
      case True
      with Cons.prems(4) a show ?thesis by simp
    next
      case False
      then have "fst (hd (adapters m)) \<in> fst ` set (adapters m)" by (simp del: image_set)
      with k0 have "fst (hd (adapters m)) \<noteq> account_name_of i account" by metis
      with False have "hd (dict_set (account_name_of i account) a (adapters m)) = hd (adapters m)"
        by (rule dict_set_hd)
      with False Cons.prems(4) a show ?thesis by (simp add: dict_set_not_Nil)
    qed
  qed
  from Cons.IH [OF dr kr1 later inv1] Cons.prems(5) st show ?case by simp
qed

lemma digit_char_inj: "a < 10 \<Longrightarrow> b < 10 \<Longrightarrow> digit_char a = digit_char b \<Longrightarrow> a = b"
  unfolding digit_char_def using nth_eq_iff_index_eq [of "''0123456789''" a b] by simp

lemma str_of_nat_not_Nil: "str_of_nat n \<noteq> []"
  by (subst str_of_nat.simps) simp

lemma str_of_nat_inj: "str_of_nat a = str_of_nat b \<Longrightarrow> a = b"
proof (induction a arbitrary: b rule: str_of_nat.induct)
  case (1 n)
  show ?case
  proof (cases "n < 10")
    case True
    then have n: "str_of_nat n = [digit_char n]" by (subst str_of_nat.simps) simp
    show ?thesis
    proof (cases "b < 10")
      case b: True
      then have "str_of_nat b = [digit_char b]" by (subst str_of_nat.simps) simp
      with n "1.prems" have "digit_char n = digit_char b" by simp
      with True b show ?thesis by (rule digit_char_inj)
    next
      case False
      then have "str_of_nat b = str_of_nat (b div 10) @ [digit_char (b mod 10)]"
        by (subst str_of_nat.simps) simp
      with n "1.prems" have "str_of_nat (b div 10) = []" by simp
      with str_of_nat_not_Nil show ?thesis by blast
    qed
  next
    case False
    then have n: "str_of_nat n = str_of_nat (n div 10) @ [digit_char (n mod 10)]"
      by (subst str_of_nat.simps) simp
    show ?thesis
    proof (cases "b < 10")
      case True
      then have "str_of_nat b = [digit_char b]" by (subst str_of_nat.simps) simp
      with n "1.prems" have "str_of_nat (n div 10) = []" by simp
      with str_of_nat_not_Nil show ?thesis by blast
    next
      case b: False
      then have "str_of_nat b = str_of_nat (b div 10) @ [digit_char (b mod 10)]"
        by (subst str_of_nat.simps) simp
      with n "1.prems" have e: "str_of_nat (n div 10) = str_of_nat (b div 10)"
        "digit_char (n mod 10) = digit_char (b mod 10)" by simp_all
      from "1.IH" [OF False e(1)] have q: "n div 10 = b div 10" .
      have "n mod 10 = b mod 10" by (rule digit_char_inj [OF _ _ e(2)]) simp_all
      with q show ?thesis by (metis div_mult_mod_eq)
    qed
  qed
qed

lemma legacy_account_name_inj: "legacy_account_name i = legacy_account_name j \<Longrightarrow> i = j"
  using str_of_nat_inj [of "i + 1" "j + 1"] by (simp add: legacy_account_name_def)

lemma load_accounts_legacy_step:
  "\<exists>f1 m1. load_accounts_legacy md5 mk i (cookie # rest) (f, m) =
             load_accounts_legacy md5 mk (Suc i) rest (f1, m1) \<and>
     (m1 = m \<or>
      (\<exists>a. m1 = \<lparr>adapters = dict_set (legacy_account_name i) a (adapters m),
                  default_adapter = (if default_adapter m = None then Some a else default_adapter m)\<rparr>))"
proof (cases "py_strip cookie = []")
  case True
  then show ?thesis by auto
next
  case False
  obtain r f' where cr: "create_adapter md5 mk ''quark'' (py_strip cookie) (int i) f = (r, f')"
    by (cases "create_adapter md5 mk ''quark'' (py_strip cookie) (int i) f") auto
  show ?thesis
  proof (cases r)
    case None
    with False cr show ?thesis by auto
  next
    case (Some a)
    let ?m1 = "\<lparr>adapters = dict_set (legacy_account_name i) a (adapters m),
                default_adapter = (if default_adapter m = None then Some a else default_adapter m)\<rparr>"
    have "load_accounts_legacy md5 mk i (cookie # rest) (f, m) =
          load_accounts_legacy md5 mk (Suc i) rest (f', ?m1)"
      using Some False cr by simp
    then show ?thesis by blast
  qed
qed

lemma load_accounts_legacy_first:
  "fst ` set (adapters m) \<subseteq> legacy_account_name ` {..<i} \<Longrightarrow>
   (adapters m = [] \<and> default_adapter m = None) \<or>
   (adapters m \<noteq> [] \<and> default_adapter m = Some (snd (hd (adapters m)))) \<Longrightarrow>
   (adapters (snd (load_accounts_legacy md5 mk i cookies (f, m))) = [] \<and>
    default_adapter (snd (load_accounts_legacy md5 mk i cookies (f, m))) = None) \<or>
   (adapters (snd (load_accounts_legacy md5 mk i cookies (f, m))) \<noteq> [] \<and>
    default_adapter (snd (load_accounts_legacy md5 mk i cookies (f, m))) =
      Some (snd (hd (adapters (snd (load_accounts_legacy md5 mk i cookies (f, m)))))))"
proof (induction cookies arbitrary: i f m)
  case Nil
  then show ?case by simp
next
  case (Cons cookie rest)
  from load_accounts_legacy_step [of md5 mk i cookie rest f m] obtain f1 m1 where
    st: "load_accounts_legacy md5 mk i (cookie # rest) (f, m) = load_accounts_legacy md5 mk (Suc i) rest (f1, m1)"
    and m1: "m1 = m \<or>
      (\<exists>a. m1 = \<lparr>adapters = dict_set (legacy_account_name i) a (adapters m),
                  default_adapter = (if default_adapter m = None then Some a else default_adapter m)\<rparr>)"
    by blast
  have k0: "legacy_account_name i \<notin> fst ` set (adapters m)"
  proof
    assume "legacy_account_name i \<in> fst ` set (adapters m)"
    with Cons.prems(1) obtain j where "j < i" "legacy_account_name i = legacy_account_name j" by blast
    with legacy_account_name_inj show False by blast
  qed
  have "fst ` set (adapters m1) \<subseteq> insert (legacy_account_name i) (fst ` set (adapters m))"
    using m1 dict_set_keys [of "legacy_account_name i" _ "adapters m"]
    by (elim disjE conjE exE) (simp_all add: subset_insertI)
  also have "\<dots> \<subseteq> legacy_account_name ` {..<Suc i}"
    using Cons.prems(1) by (auto simp: lessThan_Suc)
  finally have keys1: "fst ` set (adapters m1) \<subseteq> legacy_account_name ` {..<Suc i}" .
  have inv1: "(adapters m1 = [] \<and> default_adapter m1 = None) \<or>
     (adapters m1 \<noteq> [] \<and> default_adapter m1 = Some (snd (hd (adapters m1))))"
  proof (cases "m1 = m")
    case True
    with Cons.prems(2) show ?thesis by simp
  next
    case False
    with m1 obtain a where a: "m1 = \<lparr>adapters = dict_set (legacy_account_name i) a (adapters m),
                   default_adapter = (if default_adapter m = None then Some a else default_adapter m)\<rparr>"
      by auto
    show ?thesis
    proof (cases "adapters m = []")
      case True
      with Cons.prems(2) a show ?thesis by simp
    next
      case False
      then have "fst (hd (adapters m)) \<in> fst ` set (adapters m)" by (simp del: image_set)
      with k0 have "fst (hd (adapters m)) \<noteq> legacy_account_name i" by metis
      with False have "hd (dict_set (legacy_account_name i) a (adapters m)) = hd (adapters m)"
        by (rule dict_set_hd)
      with False Cons.prems(2) a show ?thesis by (simp add: dict_set_not_Nil)
    qed
  qed
  from Cons.IH [OF keys1 inv1] st show ?case by simp
qed

lemma load_accounts_default_iff:
  assumes "load_accounts md5 mk cfg f0 = (f, m, ok)"
  shows "(default_adapter m = None \<longleftrightarrow> adapters m = []) \<and> ok = (adapters m \<noteq> [])"
proof -
  let ?start = "\<lparr>adapters = [], default_adapter = None\<rparr>"
  have ok: "ok = (adapters m \<noteq> [])"
    using assms by (auto simp: load_accounts_def Let_def split: prod.splits)
  have "default_adapter m = None \<longleftrightarrow> adapters m = []"
  proof (cases "cfg_accounts cfg")
    case (Some accts)
    then have "m = snd (load_accounts_new md5 mk 0 accts (f0, ?start))"
      using assms by (auto simp: load_accounts_def Let_def split: prod.splits)
    with load_accounts_new_empty_iff [of ?start md5 mk 0 accts f0] show ?thesis by simp
  next
    case None
    show ?thesis
    proof (cases "cfg_cookie cfg")
      case n: None
      with None assms show ?thesis by (auto simp: load_accounts_def Let_def)
    next
      case (Some cookies)
      with None have "m = snd (load_accounts_legacy md5 mk 0 (legacy_cookies cookies) (f0, ?start))"
        using assms by (auto simp: load_accounts_def Let_def split: prod.splits)
      with load_accounts_legacy_first [of ?start 0 md5 mk "legacy_cookies cookies" f0] show ?thesis
        by auto
    qed
  qed
  with ok show ?thesis by simp
qed

lemma load_accounts_default_marked:
  assumes "load_accounts md5 mk cfg f0 = (f, m, ok)" and "cfg_accounts cfg = Some accts"
    and "distinct (account_names 0 accts)"
    and "d < length accts" and "acc_enabled (accts ! d) \<noteq> Some False"
    and "acc_default (accts ! d) = Some True"
    and "\<forall>j<length accts. d < j \<and> acc_enabled (accts ! j) \<noteq> Some False \<longrightarrow>
           acc_default (accts ! j) \<noteq> Some True"
    and "account_name_of d (accts ! d) \<in> fst ` set (adapters m)"
  shows "default_adapter m = map_of (adapters m) (account_name_of d (accts ! d))"
proof -
  let ?start = "\<lparr>adapters = [], default_adapter = None\<rparr>"
  have m: "m = snd (load_accounts_new md5 mk 0 accts (f0, ?start))"
    using assms(1,2) by (auto simp: load_accounts_def Let_def split: prod.splits)
  show ?thesis
    using load_accounts_new_marked [of 0 accts ?start d md5 mk f0] assms(3-8)
    unfolding m by simp
qed

lemma load_accounts_default_first_new:
  assumes "load_accounts md5 mk cfg f0 = (f, m, ok)" and "cfg_accounts cfg = Some accts"
    and "distinct (account_names 0 accts)"
    and "\<forall>j<length accts. acc_enabled (accts ! j) \<noteq> Some False \<longrightarrow> acc_default (accts ! j) \<noteq> Some True"
    and "adapters m \<noteq> []"
  shows "default_adapter m = Some (snd (hd (adapters m)))"
proof -
  let ?start = "\<lparr>adapters = [], default_adapter = None\<rparr>"
  have m: "m = snd (load_accounts_new md5 mk 0 accts (f0, ?start))"
    using assms(1,2) by (auto simp: load_accounts_def Let_def split: prod.splits)
  show ?thesis
    using load_accounts_new_first [of 0 accts ?start md5 mk f0] assms(3-5)
    unfolding m by simp
qed

lemma load_accounts_default_first_legacy:
  assumes "load_accounts md5 mk cfg f0 = (f, m, ok)" and "cfg_accounts cfg = None"
    and "adapters m \<noteq> []"
  shows "default_adapter m = Some (snd (hd (adapters m)))"
proof (cases "cfg_cookie cfg")
  case None
  with assms show ?thesis by (auto simp: load_accounts_def Let_def)
next
  case (Some cookies)
  let ?start = "\<lparr>adapters = [], default_adapter = None\<rparr>"
  from Some assms(1,2) have "m = snd (load_accounts_legacy md5 mk 0 (legacy_cookies cookies) (f0, ?start))"
    by (auto simp: load_accounts_def Let_def split: prod.splits)
  with load_accounts_legacy_first [of ?start 0 md5 mk "legacy_cookies cookies" f0] assms(3)
  show ?thesis by auto
qed

text \<open>
  C6. The priority of \<open>get_adapter_for_task\<close>. (1) A task that names an account
  (a non-empty name) found among the loaded accounts gets that account's adapter,
  whatever the url is. (2) Otherwise, when the url's drive type is detected, it gets
  the first adapter, in the order the accounts were loaded, that has this drive type
  and is active. (3) Otherwise (no drive type detected, or no active adapter of that
  type) it gets \<open>default_adapter\<close>. The loaded accounts are enabled ones: every name
  \<open>load_accounts\<close> stores is the name of an account of the configuration that is not
  disabled. And \<open>default_adapter\<close> is the designated default account's adapter:
  after \<open>load_accounts\<close> it is \<open>None\<close> exactly when no account was loaded, which is
  when \<open>load_accounts\<close> returns \<open>False\<close>; when the account names are distinct it is
  the adapter of the last enabled account marked \<open>default\<close>, if that account was
  loaded; and when no enabled account is marked, and in the legacy format, it is the
  adapter of the first account loaded.
\<close>

theorem get_adapter_for_task_priority:
  "(task_account_name t = Some n \<and> n \<noteq> [] \<and> map_of (adapters m) n = Some a
      \<longrightarrow> get_adapter_for_task f m t = Some a) \<and>
   (\<not> task_names_loaded m t \<and> get_drive_type_by_url f (task_url t) = Some dt \<and> dt \<noteq> [] \<and>
    i < length (adapters m) \<and> serves f dt (snd (adapters m ! i)) \<and>
    (\<forall>j<i. \<not> serves f dt (snd (adapters m ! j)))
      \<longrightarrow> get_adapter_for_task f m t = Some (snd (adapters m ! i))) \<and>
   (\<not> task_names_loaded m t \<and>
    (get_drive_type_by_url f (task_url t) = None \<or> get_drive_type_by_url f (task_url t) = Some [] \<or>
     (\<forall>r \<in> snd ` set (adapters m). \<not> serves f (the (get_drive_type_by_url f (task_url t))) r))
      \<longrightarrow> get_adapter_for_task f m t = default_adapter m) \<and>
   (load_accounts md5 mk cfg f0 = (f, m, ok) \<and> cfg_accounts cfg = Some accts \<and>
    k \<in> fst ` set (adapters m)
      \<longrightarrow> (\<exists>j<length accts. acc_enabled (accts ! j) \<noteq> Some False \<and> k = account_name_of j (accts ! j))) \<and>
   (load_accounts md5 mk cfg f0 = (f, m, ok)
      \<longrightarrow> (default_adapter m = None \<longleftrightarrow> adapters m = []) \<and> ok = (adapters m \<noteq> [])) \<and>
   (load_accounts md5 mk cfg f0 = (f, m, ok) \<and> cfg_accounts cfg = Some accts \<and>
    distinct (account_names 0 accts) \<and>
    d < length accts \<and> acc_enabled (accts ! d) \<noteq> Some False \<and> acc_default (accts ! d) = Some True \<and>
    (\<forall>j<length accts. d < j \<and> acc_enabled (accts ! j) \<noteq> Some False \<longrightarrow>
       acc_default (accts ! j) \<noteq> Some True) \<and>
    account_name_of d (accts ! d) \<in> fst ` set (adapters m)
      \<longrightarrow> default_adapter m = map_of (adapters m) (account_name_of d (accts ! d))) \<and>
   (load_accounts md5 mk cfg f0 = (f, m, ok) \<and> adapters m \<noteq> [] \<and>
    (cfg_accounts cfg = None \<or>
     (cfg_accounts cfg = Some accts \<and> distinct (account_names 0 accts) \<and>
      (\<forall>j<length accts. acc_enabled (accts ! j) \<noteq> Some False \<longrightarrow>
         acc_default (accts ! j) \<noteq> Some True)))
      \<longrightarrow> default_adapter m = Some (snd (hd (adapters m))))"
proof (intro conjI impI)
  assume "task_account_name t = Some n \<and> n \<noteq> [] \<and> map_of (adapters m) n = Some a"
  then show "get_adapter_for_task f m t = Some a"
    by (simp add: get_adapter_for_task_def)
next
  assume h: "\<not> task_names_loaded m t \<and> get_drive_type_by_url f (task_url t) = Some dt \<and> dt \<noteq> [] \<and>
    i < length (adapters m) \<and> serves f dt (snd (adapters m ! i)) \<and>
    (\<forall>j<i. \<not> serves f dt (snd (adapters m ! j)))"
  have named: "(case task_account_name t of None \<Rightarrow> None
            | Some account_name \<Rightarrow> (if account_name \<noteq> [] then map_of (adapters m) account_name else None)) = None"
    using h by (auto simp: task_names_loaded_def split: option.splits)
  have "first_active (objects f) dt (map snd (adapters m)) = Some (map snd (adapters m) ! i)"
    by (rule first_active_first) (use h in \<open>auto simp: serves_def\<close>)
  then show "get_adapter_for_task f m t = Some (snd (adapters m ! i))"
    using h named by (simp add: get_adapter_for_task_def task_url_def)
next
  assume h: "\<not> task_names_loaded m t \<and>
    (get_drive_type_by_url f (task_url t) = None \<or> get_drive_type_by_url f (task_url t) = Some [] \<or>
     (\<forall>r \<in> snd ` set (adapters m). \<not> serves f (the (get_drive_type_by_url f (task_url t))) r))"
  have named: "(case task_account_name t of None \<Rightarrow> None
            | Some account_name \<Rightarrow> (if account_name \<noteq> [] then map_of (adapters m) account_name else None)) = None"
    using h by (auto simp: task_names_loaded_def split: option.splits)
  show "get_adapter_for_task f m t = default_adapter m"
  proof (cases "get_drive_type_by_url f (task_url t)")
    case None
    then show ?thesis using named by (simp add: get_adapter_for_task_def task_url_def)
  next
    case (Some d)
    show ?thesis
    proof (cases "d = []")
      case True
      then show ?thesis using named Some by (simp add: get_adapter_for_task_def task_url_def)
    next
      case False
      with h Some have "\<forall>r \<in> snd ` set (adapters m). \<not> serves f d r" by auto
      then have "first_active (objects f) d (map snd (adapters m)) = None"
        by (simp add: first_active_None serves_def)
      then show ?thesis using named Some False by (simp add: get_adapter_for_task_def task_url_def)
    qed
  qed
next
  assume "load_accounts md5 mk cfg f0 = (f, m, ok) \<and> cfg_accounts cfg = Some accts \<and>
    k \<in> fst ` set (adapters m)"
  then show "\<exists>j<length accts. acc_enabled (accts ! j) \<noteq> Some False \<and> k = account_name_of j (accts ! j)"
    using load_accounts_names by blast
next
  assume h: "load_accounts md5 mk cfg f0 = (f, m, ok)"
  from load_accounts_default_iff [OF h]
  show "(default_adapter m = None) = (adapters m = [])" and "ok = (adapters m \<noteq> [])" by simp_all
next
  assume h: "load_accounts md5 mk cfg f0 = (f, m, ok) \<and> cfg_accounts cfg = Some accts \<and>
    distinct (account_names 0 accts) \<and>
    d < length accts \<and> acc_enabled (accts ! d) \<noteq> Some False \<and> acc_default (accts ! d) = Some True \<and>
    (\<forall>j<length accts. d < j \<and> acc_enabled (accts ! j) \<noteq> Some False \<longrightarrow>
       acc_default (accts ! j) \<noteq> Some True) \<and>
    account_name_of d (accts ! d) \<in> fst ` set (adapters m)"
  show "default_adapter m = map_of (adapters m) (account_name_of d (accts ! d))"
    by (rule load_accounts_default_marked [of md5 mk cfg f0 f m ok accts d]) (use h in simp_all)
next
  assume h: "load_accounts md5 mk cfg f0 = (f, m, ok) \<and> adapters m \<noteq> [] \<and>
    (cfg_accounts cfg = None \<or>
     (cfg_accounts cfg = Some accts \<and> distinct (account_names 0 accts) \<and>
      (\<forall>j<length accts. acc_enabled (accts ! j) \<noteq> Some False \<longrightarrow>
         acc_default (accts ! j) \<noteq> Some True)))"
  show "default_adapter m = Some (snd (hd (adapters m)))"
  proof (cases "cfg_accounts cfg")
    case None
    with h show ?thesis using load_accounts_default_first_legacy [of md5 mk cfg f0 f m ok] by simp
  next
    case (Some x)
    with h have "cfg_accounts cfg = Some accts" "distinct (account_names 0 accts)"
      "\<forall>j<length accts. acc_enabled (accts ! j) \<noteq> Some False \<longrightarrow> acc_default (accts ! j) \<noteq> Some True"
      by auto
    with h show ?thesis using load_accounts_default_first_new [of md5 mk cfg f0 f m ok accts] by simp
  qed
qed

lemmas example_defs = example_loaded_def load_accounts_def example_config_def init_factory_def
  create_adapter_def default_ADAPTER_MAP_def logged_in_def base_init_def make_cache_key_def Let_def
  class_drive_type_def py_strip_def is_space_def default_URL_PATTERNS_def get_drive_type_by_url_def
  re_search_def serves_def example_marked_def example_config_marked_def

theorem get_adapter_for_task_priority_witness:
  "get_adapter_for_task (fst example_loaded) (fst (snd example_loaded))
     \<lparr>task_account_name = Some ''acctX'', task_shareurl = Some ''https://www.alipan.com/s/abc''\<rparr> = Some 0 \<and>
   get_adapter_for_task (fst example_loaded) (fst (snd example_loaded))
     \<lparr>task_account_name = None, task_shareurl = Some ''https://www.alipan.com/s/abc''\<rparr> = Some 1 \<and>
   get_adapter_for_task (fst example_loaded) (fst (snd example_loaded))
     \<lparr>task_account_name = Some ''acctOff'', task_shareurl = Some ''https://example.org/s/abc''\<rparr> = Some 0 \<and>
   adapters (fst (snd example_loaded)) = [(''acctX'', 0), (''acctY'', 1)] \<and>
   (\<exists>j<length (the (cfg_accounts example_config)).
      acc_enabled (the (cfg_accounts example_config) ! j) \<noteq> Some False \<and>
      ''acctY'' = account_name_of j (the (cfg_accounts example_config) ! j)) \<and>
   default_adapter (fst (snd example_loaded)) = Some 0 \<and>
   adapters (fst (snd example_marked)) = [(''acctX'', 0), (''acctY'', 1), (''acctZ'', 2)] \<and>
   default_adapter (fst (snd example_marked)) = Some 1 \<and>
   get_adapter_for_task (fst example_marked) (fst (snd example_marked))
     \<lparr>task_account_name = None, task_shareurl = Some ''https://example.org/s/abc''\<rparr> = Some 1 \<and>
   snd (snd example_marked)"
proof -
  let ?F = "fst example_loaded" and ?M = "fst (snd example_loaded)"
  let ?G = "fst example_marked" and ?N = "fst (snd example_marked)"
  let ?ali = "''https://www.alipan.com/s/abc''"
  have ad: "adapters ?M = [(''acctX'', 0), (''acctY'', 1)]"
    by (simp add: example_defs)
  have s1: "serves ?F ''aliyun'' 1" and s0: "\<not> serves ?F ''aliyun'' 0"
    by (simp_all add: example_defs)
  have u1: "get_drive_type_by_url ?F ?ali = Some ''aliyun''"
    by (simp add: example_defs)
  have u2: "get_drive_type_by_url ?F ''https://example.org/s/abc'' = None"
    by (simp add: example_defs)
  have names: "account_names 0 (the (cfg_accounts example_config)) = [''acctX'', ''acctOff'', ''acctY'']"
    by (simp add: account_names_def example_config_def account_name_of_def enumerate_eq_zip upt_rec)
  have dflt: "default_adapter ?M = Some 0"
    using get_adapter_for_task_priority [where ?md5.0 = "\<lambda>cookie. cookie" and mk = logged_in
        and cfg = example_config and ?f0.0 = init_factory and f = ?F and m = ?M
        and ok = "snd (snd example_loaded)" and accts = "the (cfg_accounts example_config)"] ad names
    by (simp add: example_loaded_def [symmetric]) (simp add: example_config_def nth_Cons split: nat.splits)
  have c1: "get_adapter_for_task ?F ?M \<lparr>task_account_name = Some ''acctX'', task_shareurl = Some ?ali\<rparr> = Some 0"
    using get_adapter_for_task_priority [where t = "\<lparr>task_account_name = Some ''acctX'', task_shareurl = Some ?ali\<rparr>"
        and n = "''acctX''" and m = ?M and a = 0 and f = ?F] ad
    by simp
  have c2: "get_adapter_for_task ?F ?M \<lparr>task_account_name = None, task_shareurl = Some ?ali\<rparr> = Some 1"
    using get_adapter_for_task_priority [where t = "\<lparr>task_account_name = None, task_shareurl = Some ?ali\<rparr>"
        and m = ?M and f = ?F and dt = "''aliyun''" and i = 1] ad s1 s0 u1
    by (simp add: task_names_loaded_def task_url_def)
  have c3: "get_adapter_for_task ?F ?M \<lparr>task_account_name = Some ''acctOff'', task_shareurl = Some ''https://example.org/s/abc''\<rparr> = Some 0"
    using get_adapter_for_task_priority [where t = "\<lparr>task_account_name = Some ''acctOff'', task_shareurl = Some ''https://example.org/s/abc''\<rparr>"
        and m = ?M and f = ?F] ad u2 dflt
    by (simp add: task_names_loaded_def task_url_def)
  have c4: "\<exists>j<length (the (cfg_accounts example_config)).
      acc_enabled (the (cfg_accounts example_config) ! j) \<noteq> Some False \<and>
      ''acctY'' = account_name_of j (the (cfg_accounts example_config) ! j)"
    using get_adapter_for_task_priority [where ?md5.0 = "\<lambda>cookie. cookie" and mk = logged_in
        and cfg = example_config and ?f0.0 = init_factory and f = ?F and m = ?M
        and ok = "snd (snd example_loaded)" and accts = "the (cfg_accounts example_config)"
        and k = "''acctY''"] ad
    by (simp add: example_loaded_def [symmetric]) (simp add: example_config_def)
  have ad2: "adapters ?N = [(''acctX'', 0), (''acctY'', 1), (''acctZ'', 2)]"
    by (simp add: example_defs account_name_of_def)
  have names2: "account_names 0 (the (cfg_accounts example_config_marked)) =
      [''acctX'', ''acctY'', ''acctZ'']"
    by (simp add: account_names_def example_config_marked_def account_name_of_def enumerate_eq_zip upt_rec)
  have m1: "default_adapter ?N = Some 1"
    using get_adapter_for_task_priority [where ?md5.0 = "\<lambda>cookie. cookie" and mk = logged_in
        and cfg = example_config_marked and ?f0.0 = init_factory and f = ?G and m = ?N
        and ok = "snd (snd example_marked)" and accts = "the (cfg_accounts example_config_marked)"
        and d = 1] ad2 names2
    by (simp add: example_marked_def [symmetric]) (simp add: example_config_marked_def account_name_of_def nth_Cons split: nat.splits)
  have ok2: "snd (snd example_marked)"
    using get_adapter_for_task_priority [where ?md5.0 = "\<lambda>cookie. cookie" and mk = logged_in
        and cfg = example_config_marked and ?f0.0 = init_factory and f = ?G and m = ?N
        and ok = "snd (snd example_marked)"] ad2
    by (simp add: example_marked_def [symmetric])
  have u3: "get_drive_type_by_url ?G ''https://example.org/s/abc'' = None"
    by (simp add: example_defs)
  have c5: "get_adapter_for_task ?G ?N \<lparr>task_account_name = None, task_shareurl = Some ''https://example.org/s/abc''\<rparr> = Some 1"
    using get_adapter_for_task_priority [where t = "\<lparr>task_account_name = None, task_shareurl = Some ''https://example.org/s/abc''\<rparr>"
        and m = ?N and f = ?G] u3 m1
    by (simp add: task_names_loaded_def task_url_def)
  show ?thesis using c1 c2 c3 c4 ad dflt ad2 m1 c5 ok2 by simp
qed

section \<open>Results about the listing loops\<close>

text \<open>
  C5, the claim as stated fails on \<open>AliyunAdapter.get_detail\<close>: after an empty page
  that names a marker the loop requests the next page and returns its item, where the
  iterator of the specification stops with the empty list.
\<close>

theorem get_detail_continues_after_empty_page:
  "aliyun_get_detail_loop 2 (\<lambda>s. 0) empty_then_one ''root'' [] [] =
     Some (ListingOk [convert_share_item (\<lambda>s. 0) example_item]) \<and>
   spec_iterator 2 (\<lambda>s. 0) empty_then_one ''root'' [] [] = Some (ListingOk [])"
  by (simp add: empty_then_one_def numeral_2_eq_2)

lemma aliyun_loop_run:
  "marker_run req parent marker pages \<Longrightarrow> length pages \<le> fuel \<Longrightarrow>
   aliyun_get_detail_loop fuel pt req parent marker acc =
     Some (ListingOk (acc @ concat (map (\<lambda>p. map (convert_share_item pt) (sp_items p)) pages)))"
proof (induction req parent marker pages arbitrary: fuel acc rule: marker_run.induct)
  case (1 req parent marker)
  then show ?case by simp
next
  case (2 req parent marker p)
  then obtain n where "fuel = Suc n" by (cases fuel) auto
  with 2 show ?case by simp
next
  case (3 req parent marker p q ps)
  then obtain n where n: "fuel = Suc n" by (cases fuel) auto
  with 3 have "length (q # ps) \<le> n" and "marker_run req parent (sp_next_marker p) (q # ps)" by auto
  from 3(1) [OF this(2) this(1), of "acc @ map (convert_share_item pt) (sp_items p)"] 3(2) n
  show ?case by (simp add: Let_def)
qed

lemma cloud115_loop_run:
  "offset_run snap cid offset pages \<Longrightarrow> length pages \<le> fuel \<Longrightarrow>
   cloud115_get_detail_loop fuel gc snap cid offset acc =
     Some (ListingOk (acc @ concat (map (\<lambda>p. map (convert_snap_item gc) (sn_list p)) pages)))"
proof (induction snap cid offset pages arbitrary: fuel acc rule: offset_run.induct)
  case (1 snap cid offset)
  then show ?case by simp
next
  case (2 snap cid offset p)
  then obtain n where "fuel = Suc n" by (cases fuel) auto
  with 2 show ?case by (auto simp: Let_def)
next
  case (3 snap cid offset p q ps)
  then obtain n where n: "fuel = Suc n" by (cases fuel) auto
  with 3 have "length (q # ps) \<le> n" and "offset_run snap cid (offset + snap_limit) (q # ps)" by auto
  from 3(1) [OF this(2) this(1), of "acc @ map (convert_snap_item gc) (sn_list p)"] 3(2) n
  have "sn_list p \<noteq> []" using 3(2) by (auto simp: snap_limit_def)
  with 3(1) [OF \<open>offset_run snap cid (offset + snap_limit) (q # ps)\<close> \<open>length (q # ps) \<le> n\<close>,
      of "acc @ map (convert_snap_item gc) (sn_list p)"] 3(2) n
  show ?case by (simp add: Let_def)
qed

text \<open>
  C5 as amended. \<open>AliyunAdapter.get_detail\<close> appends each page's items and goes on
  exactly while the page names a next marker, an empty page included;
  \<open>Cloud115Adapter.get_detail\<close> goes on while the page is not shorter than the limit
  of 50. On a finite run of pages (the last one without marker, or short or empty), with
  fuel for its length, each loop returns exactly the concatenation of the pages' items
  in order, after what was already collected.
\<close>

theorem listing_loops_concatenate:
  "(marker_run list_by_share parent_file_id marker pages \<and> length pages \<le> fuel \<longrightarrow>
      aliyun_get_detail_loop fuel parse_time list_by_share parent_file_id marker file_list =
        Some (ListingOk (file_list @
           concat (map (\<lambda>p. map (convert_share_item parse_time) (sp_items p)) pages)))) \<and>
   (list_by_share parent_file_id marker = Returned page \<and> sp_code page = [] \<and>
    sp_next_marker page \<noteq> [] \<longrightarrow>
      aliyun_get_detail_loop (Suc fuel) parse_time list_by_share parent_file_id marker file_list =
        aliyun_get_detail_loop fuel parse_time list_by_share parent_file_id (sp_next_marker page)
          (file_list @ map (convert_share_item parse_time) (sp_items page))) \<and>
   (offset_run snap cid offset snap_pages \<and> length snap_pages \<le> fuel \<longrightarrow>
      cloud115_get_detail_loop fuel get_category snap cid offset list_merge =
        Some (ListingOk (list_merge @
           concat (map (\<lambda>p. map (convert_snap_item get_category) (sn_list p)) snap_pages))))"
  using aliyun_loop_run cloud115_loop_run by (simp add: Let_def)

theorem listing_loops_concatenate_witness:
  "aliyun_get_detail_loop 3 (\<lambda>s. 0) three_pages ''root'' [] [] =
     Some (ListingOk (replicate 237 (convert_share_item (\<lambda>s. 0) example_item))) \<and>
   aliyun_get_detail_loop 2 (\<lambda>s. 0) empty_then_one ''root'' [] [] =
     aliyun_get_detail_loop 1 (\<lambda>s. 0) empty_then_one ''root'' ''m1'' [] \<and>
   cloud115_get_detail_loop 3 (\<lambda>s. []) three_snaps ''7'' 0 [] =
     Some (ListingOk (replicate 137 (convert_snap_item (\<lambda>s. []) example_snap_item)))"
proof -
  let ?p1 = "\<lparr>sp_code = [], sp_items = replicate 100 example_item, sp_next_marker = ''m1''\<rparr>"
  let ?p2 = "\<lparr>sp_code = [], sp_items = replicate 100 example_item, sp_next_marker = ''m2''\<rparr>"
  let ?p3 = "\<lparr>sp_code = [], sp_items = replicate 37 example_item, sp_next_marker = []\<rparr>"
  let ?s1 = "\<lparr>sn_state = True, sn_error = None, sn_list = replicate 50 example_snap_item\<rparr>"
  let ?s3 = "\<lparr>sn_state = True, sn_error = None, sn_list = replicate 37 example_snap_item\<rparr>"
  have run: "marker_run three_pages ''root'' [] [?p1, ?p2, ?p3]"
    by (simp add: three_pages_def)
  have srun: "offset_run three_snaps ''7'' 0 [?s1, ?s1, ?s3]"
    by (simp add: three_snaps_def snap_limit_def)
  have r237: "replicate 100 x @ replicate 100 x @ replicate 37 x = replicate 237 x" for x :: file_info
    by (simp add: replicate_add [symmetric])
  have r137: "replicate 50 x @ replicate 50 x @ replicate 37 x = replicate 137 x" for x :: file_info
    by (simp add: replicate_add [symmetric])
  have a: "aliyun_get_detail_loop 3 (\<lambda>s. 0) three_pages ''root'' [] [] =
     Some (ListingOk (replicate 237 (convert_share_item (\<lambda>s. 0) example_item)))"
    using listing_loops_concatenate [where list_by_share = three_pages and parent_file_id = "''root''"
        and marker = "[]" and pages = "[?p1, ?p2, ?p3]" and fuel = 3 and parse_time = "\<lambda>s. 0"
        and file_list = "[]"] run r237
    by simp
  have b: "aliyun_get_detail_loop 2 (\<lambda>s. 0) empty_then_one ''root'' [] [] =
     aliyun_get_detail_loop 1 (\<lambda>s. 0) empty_then_one ''root'' ''m1'' []"
    using listing_loops_concatenate [where list_by_share = empty_then_one and parent_file_id = "''root''"
        and marker = "[]" and page = "\<lparr>sp_code = [], sp_items = [], sp_next_marker = ''m1''\<rparr>"
        and fuel = 1 and parse_time = "\<lambda>s. 0" and file_list = "[]"]
    by (simp add: empty_then_one_def numeral_2_eq_2)
  have c: "cloud115_get_detail_loop 3 (\<lambda>s. []) three_snaps ''7'' 0 [] =
     Some (ListingOk (replicate 137 (convert_snap_item (\<lambda>s. []) example_snap_item)))"
    using listing_loops_concatenate [where snap = three_snaps and cid = "''7''" and offset = 0
        and snap_pages = "[?s1, ?s1, ?s3]" and fuel = 3 and get_category = "\<lambda>s. []"
        and list_merge = "[]"] srun r137
    by simp
  show ?thesis using a b c by simp
qed

section \<open>Results about the BFS resolvers\<close>

lemma aliyun_scan_Next:
  "aliyun_scan target path items (visited, queue) = Next (visited', queue') \<Longrightarrow>
   \<exists>new. queue' = queue @ new \<and> distinct (map fst new) \<and> fst ` set new \<inter> visited = {} \<and>
         visited' = visited \<union> fst ` set new \<and>
         fst ` set new \<subseteq> {it_file_id i | i. i \<in> set items \<and> it_type i = ''folder''}"
proof (induction items arbitrary: visited queue)
  case Nil
  then show ?case by simp
next
  case (Cons item items)
  show ?case
  proof (cases "it_type item = ''folder'' \<and> it_file_id item \<notin> visited")
    case True
    let ?e = "(it_file_id item, path @ [(it_file_id item, it_name item)])"
    from Cons.prems True
    have "aliyun_scan target path items (insert (it_file_id item) visited, queue @ [?e]) = Next (visited', queue')"
      by (simp split: if_splits)
    from Cons.IH [OF this] obtain new where new: "queue' = (queue @ [?e]) @ new" "distinct (map fst new)"
      "fst ` set new \<inter> insert (it_file_id item) visited = {}"
      "visited' = insert (it_file_id item) visited \<union> fst ` set new"
      "fst ` set new \<subseteq> {it_file_id i | i. i \<in> set items \<and> it_type i = ''folder''}"
      by blast
    show ?thesis
    proof (intro exI [of _ "?e # new"] conjI)
      show "queue' = queue @ ?e # new" using new(1) by simp
      show "distinct (map fst (?e # new))" using new(2,3) by auto
      show "fst ` set (?e # new) \<inter> visited = {}" using new(3) True by auto
      show "visited' = visited \<union> fst ` set (?e # new)" using new(4) by auto
      show "fst ` set (?e # new) \<subseteq> {it_file_id i | i. i \<in> set (item # items) \<and> it_type i = ''folder''}"
        using new(5) True by auto
    qed
  next
    case False
    with Cons.prems have "aliyun_scan target path items (visited, queue) = Next (visited', queue')"
      by (auto split: if_splits)
    from Cons.IH [OF this] obtain new where new: "queue' = queue @ new" "distinct (map fst new)"
      "fst ` set new \<inter> visited = {}" "visited' = visited \<union> fst ` set new"
      "fst ` set new \<subseteq> {it_file_id i | i. i \<in> set items \<and> it_type i = ''folder''}"
      by blast
    have "{it_file_id i | i. i \<in> set items \<and> it_type i = ''folder''}
        \<subseteq> {it_file_id i | i. i \<in> set (item # items) \<and> it_type i = ''folder''}"
      by auto
    with new(5) have "fst ` set new \<subseteq> {it_file_id i | i. i \<in> set (item # items) \<and> it_type i = ''folder''}"
      by (rule subset_trans)
    with new(1-4) show ?thesis by (intro exI [of _ new]) simp
  qed
qed

lemma bfs_inv_pop:
  "bfs_inv ((c, p) # queue) visited listed \<Longrightarrow> bfs_inv queue visited (listed @ [c])"
  by (auto simp: bfs_inv_def)

lemma bfs_inv_push:
  assumes "bfs_inv queue visited listed" "distinct (map fst new)" "fst ` set new \<inter> visited = {}"
  shows "bfs_inv (queue @ new) (visited \<union> fst ` set new) listed"
proof -
  from assms(1) have q: "distinct (map fst queue)" "fst ` set queue \<subseteq> visited"
    "set listed \<subseteq> visited" "set listed \<inter> fst ` set queue = {}" "distinct listed"
    by (simp_all add: bfs_inv_def)
  have d: "distinct (map fst (queue @ new))"
    using q(1,2) assms(2,3) by auto
  have l: "set listed \<inter> fst ` set (queue @ new) = {}"
    using q(3,4) assms(3) by (auto simp: image_Un)
  show ?thesis
    unfolding bfs_inv_def using d l q(2,3,5) by (auto simp: image_Un)
qed

lemma aliyun_bfs_loop_step:
  "aliyun_bfs_loop (Suc fuel) req target ((c, p) # queue) visited listed =
     (case req c [] of
        Raised e \<Rightarrow> aliyun_bfs_loop fuel req target queue visited (listed @ [c])
      | Returned data \<Rightarrow>
          (if sp_code data \<noteq> []
           then aliyun_bfs_loop fuel req target queue visited (listed @ [c])
           else
             (case aliyun_scan target p (sp_items data) (visited, queue) of
                Found path \<Rightarrow> (Some path, listed @ [c])
              | Next (visited', queue') \<Rightarrow>
                  aliyun_bfs_loop fuel req target queue' visited' (listed @ [c]))))"
  by simp

lemma aliyun_bfs_loop_distinct:
  "bfs_inv queue visited listed \<Longrightarrow>
   distinct (snd (aliyun_bfs_loop fuel req target queue visited listed))"
proof (induction fuel arbitrary: queue visited listed)
  case 0
  then show ?case by (cases queue) (simp_all add: bfs_inv_def)
next
  case (Suc fuel)
  show ?case
  proof (cases queue)
    case Nil
    with Suc.prems show ?thesis by (simp add: bfs_inv_def)
  next
    case (Cons cp rest)
    obtain c p where cp: "cp = (c, p)" by (cases cp)
    have pop: "bfs_inv rest visited (listed @ [c])"
      using bfs_inv_pop Suc.prems Cons cp by blast
    have skip: "distinct (snd (aliyun_bfs_loop fuel req target rest visited (listed @ [c])))"
      by (rule Suc.IH [OF pop])
    show ?thesis
    proof (cases "req c []")
      case (Raised e)
      with skip Cons cp show ?thesis by (simp del: aliyun_bfs_loop.simps add: aliyun_bfs_loop_step)
    next
      case (Returned data)
      show ?thesis
      proof (cases "sp_code data \<noteq> []")
        case True
        with skip Returned Cons cp show ?thesis
          by (simp del: aliyun_bfs_loop.simps add: aliyun_bfs_loop_step)
      next
        case False
        show ?thesis
        proof (cases "aliyun_scan target p (sp_items data) (visited, rest)")
          case (Found path)
          have "distinct (listed @ [c])" using pop by (simp add: bfs_inv_def)
          with Returned False Found Cons cp show ?thesis
            by (simp del: aliyun_bfs_loop.simps add: aliyun_bfs_loop_step)
        next
          case (Next vq)
          obtain v' q' where vq: "vq = (v', q')" by (cases vq)
          from aliyun_scan_Next [OF Next [unfolded vq]] obtain new where
            new: "q' = rest @ new" "distinct (map fst new)" "fst ` set new \<inter> visited = {}"
                 "v' = visited \<union> fst ` set new" by blast
          have "bfs_inv q' v' (listed @ [c])"
            unfolding new(1,4) by (rule bfs_inv_push [OF pop new(2,3)])
          from Suc.IH [OF this] Returned False Next vq Cons cp
          show ?thesis by (simp del: aliyun_bfs_loop.simps add: aliyun_bfs_loop_step)
        qed
      qed
    qed
  qed
qed

lemma aliyun_scan_Found:
  "aliyun_scan target path items (visited, queue) = Found r \<Longrightarrow>
   \<exists>i \<in> set items. it_file_id i = target \<and> r = path @ [(target, it_name i)]"
  by (induction items arbitrary: visited queue) (auto split: if_splits)

lemma aliyun_bfs_loop_shape:
  "fst (aliyun_bfs_loop fuel req target queue visited listed) = Some r \<Longrightarrow>
   r = [] \<or> fst (last r) = target"
proof (induction fuel arbitrary: queue visited listed)
  case 0
  then show ?case by (cases queue) simp_all
next
  case (Suc fuel)
  show ?case
  proof (cases queue)
    case Nil
    with Suc.prems show ?thesis by simp
  next
    case (Cons cp rest)
    obtain c p where cp: "cp = (c, p)" by (cases cp)
    show ?thesis
    proof (cases "req c []")
      case (Raised e)
      with Suc.prems Cons cp have "fst (aliyun_bfs_loop fuel req target rest visited (listed @ [c])) = Some r"
        by (simp del: aliyun_bfs_loop.simps add: aliyun_bfs_loop_step)
      then show ?thesis by (rule Suc.IH)
    next
      case (Returned data)
      show ?thesis
      proof (cases "sp_code data \<noteq> []")
        case True
        with Suc.prems Cons cp Returned
        have "fst (aliyun_bfs_loop fuel req target rest visited (listed @ [c])) = Some r"
          by (simp del: aliyun_bfs_loop.simps add: aliyun_bfs_loop_step)
        then show ?thesis by (rule Suc.IH)
      next
        case False
        show ?thesis
        proof (cases "aliyun_scan target p (sp_items data) (visited, rest)")
          case (Found path)
          with Suc.prems Cons cp Returned False have "r = path"
            by (simp del: aliyun_bfs_loop.simps add: aliyun_bfs_loop_step)
          with aliyun_scan_Found [OF Found] show ?thesis by auto
        next
          case (Next vq)
          obtain v' q' where vq: "vq = (v', q')" by (cases vq)
          with Suc.prems Cons cp Returned False Next
          have "fst (aliyun_bfs_loop fuel req target q' v' (listed @ [c])) = Some r"
            by (simp del: aliyun_bfs_loop.simps add: aliyun_bfs_loop_step)
          then show ?thesis by (rule Suc.IH)
        qed
      qed
    qed
  qed
qed

lemma aliyun_bfs_loop_returns:
  assumes fin: "finite U" and ids: "folder_ids_in req U"
  shows "length queue + card (U - visited) \<le> fuel \<Longrightarrow>
         fst (aliyun_bfs_loop fuel req target queue visited listed) \<noteq> None"
proof (induction fuel arbitrary: queue visited listed)
  case 0
  then show ?case by (cases queue) simp_all
next
  case (Suc fuel)
  show ?case
  proof (cases queue)
    case Nil
    then show ?thesis by simp
  next
    case (Cons cp rest)
    obtain c p where cp: "cp = (c, p)" by (cases cp)
    have rest: "length rest + card (U - visited) \<le> fuel"
      using Suc.prems Cons by simp
    show ?thesis
    proof (cases "req c []")
      case (Raised e)
      with Suc.IH [OF rest] Cons cp show ?thesis
        by (simp del: aliyun_bfs_loop.simps add: aliyun_bfs_loop_step)
    next
      case (Returned data)
      show ?thesis
      proof (cases "sp_code data \<noteq> []")
        case True
        with Suc.IH [OF rest] Cons cp Returned show ?thesis
          by (simp del: aliyun_bfs_loop.simps add: aliyun_bfs_loop_step)
      next
        case False
        show ?thesis
        proof (cases "aliyun_scan target p (sp_items data) (visited, rest)")
          case (Found path)
          with Cons cp Returned False show ?thesis
            by (simp del: aliyun_bfs_loop.simps add: aliyun_bfs_loop_step)
        next
          case (Next vq)
          obtain v' q' where vq: "vq = (v', q')" by (cases vq)
          from aliyun_scan_Next [OF Next [unfolded vq]] obtain new where
            n0: "q' = rest @ new \<and> distinct (map fst new) \<and> fst ` set new \<inter> visited = {} \<and>
                 v' = visited \<union> fst ` set new \<and>
                 fst ` set new \<subseteq> {it_file_id i | i. i \<in> set (sp_items data) \<and> it_type i = ''folder''}"
            ..
          then have new: "q' = rest @ new" "distinct (map fst new)" "fst ` set new \<inter> visited = {}"
                 "v' = visited \<union> fst ` set new"
                 "fst ` set new \<subseteq> {it_file_id i | i. i \<in> set (sp_items data) \<and> it_type i = ''folder''}"
            by simp_all
          have inU: "fst ` set new \<subseteq> U"
          proof
            fix x assume "x \<in> fst ` set new"
            with new(5) obtain i where "i \<in> set (sp_items data)" "it_type i = ''folder''" "x = it_file_id i"
              by auto
            with ids Returned show "x \<in> U" unfolding folder_ids_in_def by metis
          qed
          have cn: "card (fst ` set new) = length new"
            using new(2) by (metis distinct_card length_map set_map)
          have sub: "fst ` set new \<subseteq> U - visited" using inU new(3) by auto
          have "U - v' = (U - visited) - fst ` set new" using new(4) by auto
          then have "card (U - v') = card (U - visited) - length new"
            using sub fin cn by (simp add: card_Diff_subset finite_subset)
          moreover have "length new \<le> card (U - visited)"
            using sub fin cn by (metis card_mono finite_Diff)
          ultimately have "length q' + card (U - v') \<le> fuel"
            using rest new(1) by simp
          from Suc.IH [OF this] Cons cp Returned False Next vq show ?thesis
            by (simp del: aliyun_bfs_loop.simps add: aliyun_bfs_loop_step)
        qed
      qed
    qed
  qed
qed

lemma cloud115_pages_returns:
  "\<exists>k<fuel. last_page (snap cid (offset + k * snap_limit)) \<Longrightarrow>
   fst (cloud115_pages fuel snap target cid path offset nq listed) \<noteq> None"
proof (induction fuel arbitrary: offset nq listed)
  case 0
  then show ?case by simp
next
  case (Suc fuel)
  then obtain k where k: "k < Suc fuel" "last_page (snap cid (offset + k * snap_limit))" by blast
  show ?case
  proof (cases "last_page (snap cid offset)")
    case True
    then show ?thesis
      by (auto simp: last_page_def split: outcome.splits scan.splits)
  next
    case False
    with k have "k \<noteq> 0" by (cases k) auto
    then obtain k' where k': "k = Suc k'" by (cases k) auto
    with k have "\<exists>j<fuel. last_page (snap cid ((offset + snap_limit) + j * snap_limit))"
      by (auto intro!: exI [of _ k'] simp: add.assoc)
    from Suc.IH [OF this] show ?thesis
      by (auto split: outcome.splits scan.splits)
  qed
qed

lemma cloud115_scan_Found:
  "cloud115_scan target path items nq = Found r \<Longrightarrow> \<exists>n. r = path @ [(target, n)]"
  by (induction items arbitrary: nq) (auto split: if_splits)

lemma cloud115_scan_Next:
  "cloud115_scan target path items nq = Next nq' \<Longrightarrow>
   list_all (\<lambda>e. length (snd e) = Suc (length path)) nq \<Longrightarrow>
   list_all (\<lambda>e. length (snd e) = Suc (length path)) nq'"
  by (induction items arbitrary: nq) (auto split: if_splits)

lemma cloud115_pages_Found:
  "fst (cloud115_pages fuel snap target cid path offset nq listed) = Some (Found r) \<Longrightarrow>
   \<exists>n. r = path @ [(target, n)]"
proof (induction fuel arbitrary: offset nq listed)
  case 0
  then show ?case by simp
next
  case (Suc fuel)
  then show ?case
    by (auto split: outcome.splits scan.splits if_splits dest: cloud115_scan_Found)
qed

lemma cloud115_pages_Next:
  "fst (cloud115_pages fuel snap target cid path offset nq listed) = Some (Next nq') \<Longrightarrow>
   list_all (\<lambda>e. length (snd e) = Suc (length path)) nq \<Longrightarrow>
   list_all (\<lambda>e. length (snd e) = Suc (length path)) nq'"
proof (induction fuel arbitrary: offset nq listed)
  case 0
  then show ?case by simp
next
  case (Suc fuel)
  then show ?case
    by (auto split: outcome.splits scan.splits if_splits dest: cloud115_scan_Next)
qed

lemma cloud115_level_Found:
  "fst (cloud115_level fuel snap target queue nq listed) = Some (Found r) \<Longrightarrow>
   list_all (\<lambda>e. length (snd e) = lvl) queue \<Longrightarrow>
   fst (last r) = target \<and> length r = Suc lvl"
proof (induction queue arbitrary: nq listed)
  case Nil
  then show ?case by simp
next
  case (Cons cp queue)
  obtain c p where cp: "cp = (c, p)" by (cases cp)
  obtain res l' where pg: "cloud115_pages fuel snap target c p 0 nq listed = (res, l')"
    by (cases "cloud115_pages fuel snap target c p 0 nq listed")
  show ?case
  proof (cases res)
    case None
    with Cons.prems cp pg show ?thesis by simp
  next
    case (Some sc)
    show ?thesis
    proof (cases sc)
      case (Found path)
      with Cons.prems cp pg Some have r: "r = path" by simp
      from pg Some Found have "fst (cloud115_pages fuel snap target c p 0 nq listed) = Some (Found path)"
        by simp
      from cloud115_pages_Found [OF this] obtain n where "path = p @ [(target, n)]" by blast
      with r Cons.prems(2) cp show ?thesis by simp
    next
      case (Next nq')
      with Cons.prems cp pg Some
      have "fst (cloud115_level fuel snap target queue nq' l') = Some (Found r)" by simp
      from Cons.IH [OF this] Cons.prems(2) show ?thesis by simp
    qed
  qed
qed

lemma cloud115_level_Next:
  "fst (cloud115_level fuel snap target queue nq listed) = Some (Next nq') \<Longrightarrow>
   list_all (\<lambda>e. length (snd e) = lvl) queue \<Longrightarrow>
   list_all (\<lambda>e. length (snd e) = Suc lvl) nq \<Longrightarrow>
   list_all (\<lambda>e. length (snd e) = Suc lvl) nq'"
proof (induction queue arbitrary: nq listed)
  case Nil
  then show ?case by simp
next
  case (Cons cp queue)
  obtain c p where cp: "cp = (c, p)" by (cases cp)
  obtain res l' where pg: "cloud115_pages fuel snap target c p 0 nq listed = (res, l')"
    by (cases "cloud115_pages fuel snap target c p 0 nq listed")
  have lp: "length p = lvl" using Cons.prems(2) cp by simp
  show ?case
  proof (cases res)
    case None
    with Cons.prems cp pg show ?thesis by simp
  next
    case (Some sc)
    show ?thesis
    proof (cases sc)
      case (Found path)
      with Cons.prems cp pg Some show ?thesis by simp
    next
      case (Next nq1)
      from pg Some Next have "fst (cloud115_pages fuel snap target c p 0 nq listed) = Some (Next nq1)"
        by simp
      from cloud115_pages_Next [OF this] Cons.prems(3) lp
      have n1: "list_all (\<lambda>e. length (snd e) = Suc lvl) nq1" by simp
      from Next Cons.prems cp pg Some
      have "fst (cloud115_level fuel snap target queue nq1 l') = Some (Next nq')" by simp
      from Cons.IH [OF this _ n1] Cons.prems(2) show ?thesis by simp
    qed
  qed
qed

lemma cloud115_levels_shape:
  "fst (cloud115_levels fuel snap target depth queue listed) = Some r \<Longrightarrow>
   list_all (\<lambda>e. length (snd e) = lvl) queue \<Longrightarrow>
   r = [] \<or> (fst (last r) = target \<and> lvl < length r \<and> length r \<le> lvl + depth)"
proof (induction depth arbitrary: queue listed lvl)
  case 0
  then show ?case by simp
next
  case (Suc depth)
  obtain res l' where lv: "cloud115_level fuel snap target queue [] listed = (res, l')"
    by (cases "cloud115_level fuel snap target queue [] listed")
  show ?case
  proof (cases res)
    case None
    with Suc.prems lv show ?thesis by simp
  next
    case (Some sc)
    show ?thesis
    proof (cases sc)
      case (Found path)
      with Suc.prems lv Some have r: "r = path" by simp
      from lv Some Found have "fst (cloud115_level fuel snap target queue [] listed) = Some (Found path)"
        by simp
      from cloud115_level_Found [OF this Suc.prems(2)] r show ?thesis by simp
    next
      case (Next nq)
      show ?thesis
      proof (cases "nq = []")
        case True
        with Suc.prems lv Some Next show ?thesis by simp
      next
        case False
        from lv Some Next have "fst (cloud115_level fuel snap target queue [] listed) = Some (Next nq)"
          by simp
        from cloud115_level_Next [OF this Suc.prems(2)]
        have n: "list_all (\<lambda>e. length (snd e) = Suc lvl) nq" by simp
        from False Suc.prems lv Some Next
        have "fst (cloud115_levels fuel snap target depth nq l') = Some r" by simp
        from Suc.IH [OF this n] show ?thesis by auto
      qed
    qed
  qed
qed

lemma cloud115_level_returns:
  "pages_end snap fuel \<Longrightarrow> fst (cloud115_level fuel snap target queue nq listed) \<noteq> None"
proof (induction queue arbitrary: nq listed)
  case Nil
  then show ?case by simp
next
  case (Cons cp queue)
  obtain c p where cp: "cp = (c, p)" by (cases cp)
  obtain res l' where pg: "cloud115_pages fuel snap target c p 0 nq listed = (res, l')"
    by (cases "cloud115_pages fuel snap target c p 0 nq listed")
  have "\<exists>k<fuel. last_page (snap c (0 + k * snap_limit))"
    using Cons.prems by (simp add: pages_end_def)
  from cloud115_pages_returns [where fuel = fuel and snap = snap and cid = c and offset = 0
      and target = target and path = p and nq = nq and listed = listed, OF this] pg
  have "res \<noteq> None" by simp
  then obtain sc where sc: "res = Some sc" by auto
  show ?case
  proof (cases sc)
    case (Found path)
    with cp pg sc show ?thesis by simp
  next
    case (Next nq')
    with Cons.IH [OF Cons.prems, of nq' l'] cp pg sc show ?thesis by simp
  qed
qed

lemma cloud115_levels_returns:
  "pages_end snap fuel \<Longrightarrow> fst (cloud115_levels fuel snap target depth queue listed) \<noteq> None"
proof (induction depth arbitrary: queue listed)
  case 0
  then show ?case by simp
next
  case (Suc depth)
  obtain res l' where lv: "cloud115_level fuel snap target queue [] listed = (res, l')"
    by (cases "cloud115_level fuel snap target queue [] listed")
  from cloud115_level_returns [OF Suc.prems, of target queue "[]" listed] lv have "res \<noteq> None" by simp
  then obtain sc where sc: "res = Some sc" by auto
  show ?case
  proof (cases sc)
    case (Found path)
    with lv sc show ?thesis by simp
  next
    case (Next nq)
    with Suc.IH [OF Suc.prems, of nq l'] lv sc show ?thesis by simp
  qed
qed

text \<open>
  C3, the claim as stated fails on \<open>Cloud115Adapter._resolve_share_path\<close>: when the
  root's listing returns the folder id 7 twice, the folder is queued twice and listed
  twice (it keeps no visited set).
\<close>

theorem resolve_share_path_lists_twice:
  "resolve_share_path 1 dup_snap ''99'' default_max_depth =
     (Some [], [([], 0), (''7'', 0), (''7'', 0)])"
  by (simp add: resolve_share_path_def default_max_depth_def dup_snap_def folder_snap_def
      snap_limit_def eval_nat_numeral)

text \<open>
  C4, the claim as stated fails on \<open>AliyunAdapter._bfs_share_path\<close>: it has no depth
  bound. A target at depth 12 of a chain of folders is found, with a breadcrumb of
  length 12, where a bound of 5 to 10 levels would give "not found".
\<close>

theorem bfs_share_path_beyond_ten_levels:
  "map_option length (fst (bfs_share_path 12 chain_share ''target'')) = Some 12"
  by (simp add: bfs_share_path_def chain_share_def folder_item_def file_item_def eval_nat_numeral)

text \<open>
  C3 as amended. \<open>AliyunAdapter._bfs_share_path\<close> never lists a container id twice,
  whatever the provider returns and however long it runs: the ids listed so far are
  distinct. \<open>Cloud115Adapter._resolve_share_path\<close> keeps no visited set, and cannot
  loop either: whenever every container's pagination ends within the fuel, it returns,
  for any provider data and any depth bound.
\<close>

theorem bfs_listing_once:
  "distinct (snd (bfs_share_path fuel list_by_share target_file_id)) \<and>
   (pages_end snap fuel \<longrightarrow> fst (resolve_share_path fuel snap target_cid max_depth) \<noteq> None)"
proof
  show "distinct (snd (bfs_share_path fuel list_by_share target_file_id))"
    unfolding bfs_share_path_def
    by (rule aliyun_bfs_loop_distinct) (simp add: bfs_inv_def)
  show "pages_end snap fuel \<longrightarrow> fst (resolve_share_path fuel snap target_cid max_depth) \<noteq> None"
    unfolding resolve_share_path_def using cloud115_levels_returns by blast
qed

theorem bfs_listing_once_witness:
  "snd (bfs_share_path 5 loop_share ''99'') = [''root'', ''7''] \<and>
   resolve_share_path 1 loop_snap ''99'' 3 = (Some [], [([], 0), (''7'', 0), (''7'', 0)])"
proof -
  have pe: "pages_end loop_snap 1"
    by (simp add: pages_end_def last_page_def loop_snap_def snap_limit_def)
  have a: "snd (bfs_share_path 5 loop_share ''99'') = [''root'', ''7'']"
    by (simp add: bfs_share_path_def loop_share_def folder_item_def eval_nat_numeral)
  have b: "resolve_share_path 1 loop_snap ''99'' 3 = (Some [], [([], 0), (''7'', 0), (''7'', 0)])"
    by (simp add: resolve_share_path_def loop_snap_def folder_snap_def snap_limit_def eval_nat_numeral)
  from bfs_listing_once [where snap = loop_snap and fuel = 1 and target_cid = "''99''" and max_depth = 3] pe a b
  show ?thesis by simp
qed

text \<open>
  C4 as amended. \<open>Cloud115Adapter._resolve_share_path\<close> stops when a level queues
  nothing or after \<open>max_depth\<close> levels: whenever every container's pagination ends it
  returns, and what it returns is the empty breadcrumb or a breadcrumb of at most
  \<open>max_depth\<close> entries that ends at the target. \<open>AliyunAdapter._bfs_share_path\<close>
  has no depth bound and stops when its queue empties: when the folder ids of the
  provider lie in a finite set, more fuel than that set has members makes it return,
  and it returns the empty breadcrumb or one that ends at the target. Neither has an
  error result; a listing that fails is skipped.
\<close>

theorem bfs_stops_not_found:
  "(pages_end snap fuel \<longrightarrow>
      (\<exists>r. fst (resolve_share_path fuel snap target_cid max_depth) = Some r \<and>
           (r = [] \<or> (fst (last r) = target_cid \<and> length r \<le> max_depth)))) \<and>
   (finite U \<and> folder_ids_in list_by_share U \<and> card U < fuel \<longrightarrow>
      (\<exists>r. fst (bfs_share_path fuel list_by_share target_file_id) = Some r \<and>
           (r = [] \<or> fst (last r) = target_file_id)))"
proof (intro conjI impI)
  assume pe: "pages_end snap fuel"
  then obtain r where r: "fst (resolve_share_path fuel snap target_cid max_depth) = Some r"
    using cloud115_levels_returns [OF pe] unfolding resolve_share_path_def by fastforce
  then have "fst (cloud115_levels fuel snap target_cid max_depth [([], [])] []) = Some r"
    by (simp add: resolve_share_path_def)
  from cloud115_levels_shape [OF this, of 0] have "r = [] \<or> (fst (last r) = target_cid \<and> length r \<le> max_depth)"
    by auto
  with r show "\<exists>r. fst (resolve_share_path fuel snap target_cid max_depth) = Some r \<and>
           (r = [] \<or> (fst (last r) = target_cid \<and> length r \<le> max_depth))" by blast
next
  assume h: "finite U \<and> folder_ids_in list_by_share U \<and> card U < fuel"
  have "card (U - {''root''}) \<le> card U" using h by (simp add: card_mono)
  then have "length [(''root'', [])] + card (U - {''root''}) \<le> fuel" using h by simp
  from aliyun_bfs_loop_returns [OF _ _ this, of list_by_share target_file_id "[]"] h
  obtain r where r: "fst (bfs_share_path fuel list_by_share target_file_id) = Some r"
    unfolding bfs_share_path_def by fastforce
  then have "r = [] \<or> fst (last r) = target_file_id"
    unfolding bfs_share_path_def by (rule aliyun_bfs_loop_shape)
  with r show "\<exists>r. fst (bfs_share_path fuel list_by_share target_file_id) = Some r \<and>
           (r = [] \<or> fst (last r) = target_file_id)" by blast
qed

theorem bfs_stops_not_found_witness:
  "fst (resolve_share_path 1 chain_snap ''dddddd'' default_max_depth) = Some [] \<and>
   map_option (map fst) (fst (resolve_share_path 1 chain_snap ''dd'' default_max_depth)) =
     Some [''d'', ''dd''] \<and>
   fst (bfs_share_path 2 loop_share ''99'') = Some []"
proof -
  have pe: "pages_end chain_snap 1"
    by (simp add: pages_end_def last_page_def chain_snap_def snap_limit_def)
  have ids: "folder_ids_in loop_share {''7''}"
    by (auto simp: folder_ids_in_def loop_share_def folder_item_def)
  have a: "fst (resolve_share_path 1 chain_snap ''dddddd'' default_max_depth) = Some []"
    by (simp add: resolve_share_path_def chain_snap_def folder_snap_def snap_limit_def
        default_max_depth_def eval_nat_numeral)
  have b: "map_option (map fst) (fst (resolve_share_path 1 chain_snap ''dd'' default_max_depth)) =
     Some [''d'', ''dd'']"
    by (simp add: resolve_share_path_def chain_snap_def folder_snap_def snap_limit_def
        default_max_depth_def eval_nat_numeral)
  have c: "fst (bfs_share_path 2 loop_share ''99'') = Some []"
    by (simp add: bfs_share_path_def loop_share_def folder_item_def eval_nat_numeral)
  from bfs_stops_not_found [where snap = chain_snap and fuel = 1 and target_cid = "''dddddd''"
      and max_depth = default_max_depth]
    bfs_stops_not_found [where U = "{''7''}" and list_by_share = loop_share and fuel = 2
      and target_file_id = "''99''"]
    pe ids a b c
  show ?thesis by simp
qed

lemma aliyun_scan_all:
  "target \<notin> it_file_id ` set items \<Longrightarrow> distinct (map it_file_id items) \<Longrightarrow>
   it_file_id ` set items \<inter> visited = {} \<Longrightarrow>
   aliyun_scan target path items (visited, queue) =
     Next (visited \<union> it_file_id ` set (filter (\<lambda>i. it_type i = ''folder'') items),
           queue @ map (\<lambda>i. (it_file_id i, path @ [crumb_of i])) (filter (\<lambda>i. it_type i = ''folder'') items))"
proof (induction items arbitrary: visited queue)
  case Nil
  then show ?case by simp
next
  case (Cons i items)
  have t: "it_file_id i \<noteq> target" "target \<notin> it_file_id ` set items" using Cons.prems(1) by auto
  have d: "distinct (map it_file_id items)" "it_file_id i \<notin> it_file_id ` set items"
    using Cons.prems(2) by auto
  have v: "it_file_id i \<notin> visited" "it_file_id ` set items \<inter> visited = {}"
    using Cons.prems(3) by auto
  show ?case
  proof (cases "it_type i = ''folder''")
    case True
    have "it_file_id ` set items \<inter> insert (it_file_id i) visited = {}" using d(2) v(2) by auto
    from Cons.IH [OF t(2) d(1) this] True t(1) v(1) show ?thesis
      by (simp add: crumb_of_def)
  next
    case False
    from Cons.IH [OF t(2) d(1) v(2)] False t(1) show ?thesis by simp
  qed
qed

lemma forest_ids_split:
  "mset (forest_ids k) =
     mset (map (it_file_id \<circ> node_item) k) + mset (concat (map (forest_ids \<circ> node_children) k))"
proof (induction k)
  case Nil
  then show ?case by (simp add: forest_ids_def)
next
  case (Cons n k)
  obtain i kids where n: "n = Node i kids" by (cases n)
  from Cons show ?case by (simp add: forest_ids_def n)
qed

lemma served_children_of_files:
  "\<forall>n \<in> set k. served req n \<Longrightarrow>
   concat (map (forest_ids \<circ> node_children) (filter (\<lambda>n. it_type (node_item n) = ''folder'') k)) =
   concat (map (forest_ids \<circ> node_children) k)"
proof (induction k)
  case Nil
  then show ?case by simp
next
  case (Cons n k)
  obtain i kids where n: "n = Node i kids" by (cases n)
  from Cons show ?case by (auto simp: n forest_ids_def)
qed

lemma qconc_expand:
  "qconc (expand p k) =
   map (\<lambda>i. (it_file_id i, p @ [crumb_of i])) (filter (\<lambda>i. it_type i = ''folder'') (map node_item k))"
  by (simp add: qconc_def expand_def filter_map comp_def)

lemma qids_expand:
  "\<forall>n \<in> set k. served req n \<Longrightarrow> qids (expand p k) = concat (map (forest_ids \<circ> node_children) k)"
  using served_children_of_files [of k req]
  by (simp add: qids_def expand_def comp_def)

lemma qok_expand: "\<forall>n \<in> set k. served req n \<Longrightarrow> qok req (expand p k)"
proof -
  assume a: "\<forall>n \<in> set k. served req n"
  have "lists req (it_file_id (node_item n)) (node_children n) \<and> (\<forall>m \<in> set (node_children n). served req m)"
    if "n \<in> set k" "it_type (node_item n) = ''folder''" for n
  proof -
    obtain i kids where n: "n = Node i kids" by (cases n)
    from a that(1) have "served req n" by blast
    with that(2) show ?thesis by (simp add: n)
  qed
  then show ?thesis by (auto simp: qok_def expand_def)
qed

lemma qpaths_expand:
  "r \<in> set (qpaths t (expand p k)) \<Longrightarrow> r \<in> set (map ((@) p) (forest_paths t k))"
proof -
  assume "r \<in> set (qpaths t (expand p k))"
  then obtain n q where n: "n \<in> set k" "q \<in> set (forest_paths t (node_children n))"
    "r = (p @ [crumb_of (node_item n)]) @ q"
    by (auto simp: qpaths_def expand_def)
  obtain i kids where nn: "n = Node i kids" by (cases n)
  have "crumb_of i # q \<in> set (node_paths t n)"
    using n(2) by (auto simp: nn forest_paths_def)
  then have "crumb_of i # q \<in> set (forest_paths t k)"
    using n(1) by (auto simp: forest_paths_def)
  then show ?thesis using n(3) nn by auto
qed

lemma direct_child_path:
  "i \<in> set (map node_item k) \<Longrightarrow> it_file_id i = t \<Longrightarrow> [(t, it_name i)] \<in> set (forest_paths t k)"
proof -
  assume a: "i \<in> set (map node_item k)" "it_file_id i = t"
  then obtain n where n: "n \<in> set k" "node_item n = i" by auto
  obtain j kids where nn: "n = Node j kids" by (cases n)
  have "[(t, it_name i)] \<in> set (node_paths t n)" using n(2) a(2) by (simp add: nn crumb_of_def)
  with n(1) show ?thesis by (auto simp: forest_paths_def)
qed

lemma aliyun_scan_finds:
  "target \<in> it_file_id ` set items \<Longrightarrow>
   \<exists>r. aliyun_scan target path items (visited, queue) = Found r"
  by (induction items arbitrary: visited queue) auto

lemma bfs_tree:
  "qok req aq \<Longrightarrow> distinct (qids aq) \<Longrightarrow> set (qids aq) \<inter> visited = {} \<Longrightarrow>
   target \<in> set (qids aq) \<Longrightarrow> length aq + length (qids aq) \<le> fuel \<Longrightarrow>
   \<exists>r. fst (aliyun_bfs_loop fuel req target (qconc aq) visited listed) = Some r \<and>
       r \<in> set (qpaths target aq)"
proof (induction fuel arbitrary: aq visited listed)
  case 0
  then show ?case by (simp add: qids_def)
next
  case (Suc fuel)
  show ?case
  proof (cases aq)
    case Nil
    with Suc.prems(4) show ?thesis by (simp add: qids_def)
  next
    case (Cons e rest)
    obtain c p k where e: "e = (c, p, k)" by (cases e)
    have aq: "aq = (c, p, k) # rest" using Cons e by simp
    have ls: "lists req c k" and sv: "\<forall>n \<in> set k. served req n" and okr: "qok req rest"
      using Suc.prems(1) by (auto simp: aq qok_def)
    from ls obtain d where d: "req c [] = Returned d" "sp_code d = []" "sp_items d = map node_item k"
      by (auto simp: lists_def split: outcome.splits)
    have ids: "qids aq = forest_ids k @ qids rest" by (simp add: aq qids_def)
    let ?aq' = "rest @ expand p k"
    have ids': "qids ?aq' = qids rest @ concat (map (forest_ids \<circ> node_children) k)"
      using qids_expand [OF sv, of p] by (simp add: qids_def)
    have ms: "mset (qids aq) = mset (map (it_file_id \<circ> node_item) k) + mset (qids ?aq')"
      by (simp add: ids ids' forest_ids_split)
    then have ms2: "mset (qids aq) = mset (map (it_file_id \<circ> node_item) k @ qids ?aq')" by simp
    have dis: "distinct (map (it_file_id \<circ> node_item) k @ qids ?aq')"
      using Suc.prems(2) mset_eq_imp_distinct_iff [OF ms2] by simp
    have sets: "set (qids aq) = set (map (it_file_id \<circ> node_item) k) \<union> set (qids ?aq')"
      using mset_eq_setD [OF ms2] by simp
    have len: "length (qids aq) = length k + length (qids ?aq')"
      using mset_eq_length [OF ms2] by simp
    have step: "aliyun_bfs_loop (Suc fuel) req target (qconc aq) visited listed =
       (case aliyun_scan target p (map node_item k) (visited, qconc rest) of
          Found path \<Rightarrow> (Some path, listed @ [c])
        | Next (visited', queue') \<Rightarrow> aliyun_bfs_loop fuel req target queue' visited' (listed @ [c]))"
      using d by (simp add: aq qconc_def)
    show ?thesis
    proof (cases "target \<in> it_file_id ` set (map node_item k)")
      case True
      have "\<exists>r. aliyun_scan target p (map node_item k) (visited, qconc rest) = Found r"
        using True by (rule aliyun_scan_finds)
      then obtain r where r: "aliyun_scan target p (map node_item k) (visited, qconc rest) = Found r"
        by blast
      from aliyun_scan_Found [OF r] obtain i where
        i: "i \<in> set (map node_item k)" "it_file_id i = target" "r = p @ [(target, it_name i)]"
        by blast
      have "[(target, it_name i)] \<in> set (forest_paths target k)"
        using direct_child_path [OF i(1,2)] .
      then have "r \<in> set (qpaths target aq)" using i(3) by (auto simp: aq qpaths_def)
      with step r show ?thesis by simp
    next
      case False
      have dk: "distinct (map it_file_id (map node_item k))" using dis by (simp add: comp_def)
      have vk: "it_file_id ` set (map node_item k) \<inter> visited = {}"
        using Suc.prems(3) sets by auto
      have scan: "aliyun_scan target p (map node_item k) (visited, qconc rest) =
        Next (visited \<union> it_file_id ` set (filter (\<lambda>i. it_type i = ''folder'') (map node_item k)),
              qconc ?aq')"
        using aliyun_scan_all [OF False dk vk, of p "qconc rest"] qconc_expand [of p k]
        by (simp add: qconc_def)
      let ?v' = "visited \<union> it_file_id ` set (filter (\<lambda>i. it_type i = ''folder'') (map node_item k))"
      have ok': "qok req ?aq'" using okr qok_expand [OF sv, of p] by (auto simp: qok_def)
      have d': "distinct (qids ?aq')" using dis by simp
      have v': "set (qids ?aq') \<inter> ?v' = {}"
      proof -
        have "set (qids ?aq') \<inter> visited = {}" using Suc.prems(3) sets by auto
        moreover have "set (qids ?aq') \<inter> set (map (it_file_id \<circ> node_item) k) = {}"
          using dis by auto
        ultimately show ?thesis by auto
      qed
      have t': "target \<in> set (qids ?aq')"
        using Suc.prems(4) sets False by auto
      have "length ?aq' \<le> length rest + length k" by (simp add: expand_def)
      then have f': "length ?aq' + length (qids ?aq') \<le> fuel"
        using Suc.prems(5) len by (simp add: aq)
      from Suc.IH [OF ok' d' v' t' f', of "listed @ [c]"] obtain r where
        r: "fst (aliyun_bfs_loop fuel req target (qconc ?aq') ?v' (listed @ [c])) = Some r"
           "r \<in> set (qpaths target ?aq')" by blast
      have "r \<in> set (qpaths target rest) \<or> r \<in> set (qpaths target (expand p k))"
        using r(2) by (auto simp: qpaths_def)
      then have "r \<in> set (qpaths target aq)"
        using qpaths_expand [of r target p k] by (auto simp: aq qpaths_def)
      with step scan r(1) show ?thesis by simp
    qed
  qed
qed

lemma node_paths_in_ids: "p \<in> set (node_paths t n) \<Longrightarrow> t \<in> set (node_ids n)"
proof (induction n arbitrary: p)
  case (Node i kids)
  show ?case
  proof (cases "it_file_id i = t")
    case True
    then show ?thesis by simp
  next
    case False
    with Node.prems obtain k q where "k \<in> set kids" "q \<in> set (node_paths t k)" by auto
    with Node.IH have "t \<in> set (node_ids k)" by blast
    with \<open>k \<in> set kids\<close> show ?thesis by auto
  qed
qed

lemma forest_paths_in_ids: "p \<in> set (forest_paths t ns) \<Longrightarrow> t \<in> set (forest_ids ns)"
  by (auto simp: forest_paths_def forest_ids_def dest: node_paths_in_ids)

lemma forest_paths_unique_aux:
  "(\<And>k p q. k \<in> set ks \<Longrightarrow> distinct (node_ids k) \<Longrightarrow> p \<in> set (node_paths t k) \<Longrightarrow>
      q \<in> set (node_paths t k) \<Longrightarrow> p = q) \<Longrightarrow>
   distinct (forest_ids ks) \<Longrightarrow> p \<in> set (forest_paths t ks) \<Longrightarrow>
   q \<in> set (forest_paths t ks) \<Longrightarrow> p = q"
proof (induction ks)
  case Nil
  then show ?case by (simp add: forest_paths_def)
next
  case (Cons k ks)
  have dk: "distinct (node_ids k)" and dks: "distinct (forest_ids ks)"
    and dj: "set (node_ids k) \<inter> set (forest_ids ks) = {}"
    using Cons.prems(2) by (auto simp: forest_ids_def)
  have pc: "p \<in> set (node_paths t k) \<or> p \<in> set (forest_paths t ks)"
    and qc: "q \<in> set (node_paths t k) \<or> q \<in> set (forest_paths t ks)"
    using Cons.prems(3,4) by (auto simp: forest_paths_def)
  have rest: "p = q" if "p \<in> set (forest_paths t ks)" "q \<in> set (forest_paths t ks)"
    using Cons.IH [OF _ dks that] Cons.prems(1) by (meson list.set_intros(2))
  have here: "p = q" if "p \<in> set (node_paths t k)" "q \<in> set (node_paths t k)"
    using Cons.prems(1) [OF _ dk that] by simp
  have mixed: False if "a \<in> set (node_paths t k)" "b \<in> set (forest_paths t ks)" for a b
    using node_paths_in_ids [OF that(1)] forest_paths_in_ids [OF that(2)] dj by auto
  from pc qc show ?case using rest here mixed by blast
qed

lemma node_paths_unique:
  "distinct (node_ids n) \<Longrightarrow> p \<in> set (node_paths t n) \<Longrightarrow> q \<in> set (node_paths t n) \<Longrightarrow> p = q"
proof (induction n arbitrary: p q)
  case (Node i kids)
  have dk: "distinct (forest_ids kids)" and ni: "it_file_id i \<notin> set (forest_ids kids)"
    using Node.prems(1) by (auto simp: forest_ids_def)
  have sub: "a = b" if "a \<in> set (forest_paths t kids)" "b \<in> set (forest_paths t kids)" for a b
    by (rule forest_paths_unique_aux [OF _ dk that]) (use Node.IH in blast)
  show ?case
  proof (cases "it_file_id i = t")
    case True
    with ni have "forest_paths t kids = []"
      using forest_paths_in_ids [of _ t kids] by (cases "forest_paths t kids") auto
    with True Node.prems(2,3) show ?thesis by (simp add: forest_paths_def)
  next
    case False
    with Node.prems(2,3) obtain a b where "p = crumb_of i # a" "q = crumb_of i # b"
      "a \<in> set (forest_paths t kids)" "b \<in> set (forest_paths t kids)"
      by (auto simp: forest_paths_def)
    with sub show ?thesis by simp
  qed
qed

lemma forest_paths_unique:
  "distinct (forest_ids ns) \<Longrightarrow> p \<in> set (forest_paths t ns) \<Longrightarrow>
   q \<in> set (forest_paths t ns) \<Longrightarrow> p = q"
  by (rule forest_paths_unique_aux) (use node_paths_unique in blast)+

text \<open>
  What \<open>_bfs_share_path\<close> finds when no folder needs a second page. When the provider
  serves a tree whose ids are distinct (no duplicate placement), every folder whole in
  the one page the resolver asks for, and the tree contains the target,
  \<open>_bfs_share_path\<close> returns, given fuel for the tree's nodes, a breadcrumb \<open>r\<close>
  that ends with the target itself and is the tree's breadcrumb of the target, from the
  top-level ancestor down to the target; it is the only breadcrumb of the target in the
  tree, hence the shortest.
\<close>

lemma bfs_share_path_finds:
  assumes "serves_tree list_by_share forest"
      and "distinct (forest_ids forest)"
      and "''root'' \<notin> set (forest_ids forest)"
      and "target \<in> set (forest_ids forest)"
      and "length (forest_ids forest) < fuel"
  shows "\<exists>r. fst (bfs_share_path fuel list_by_share target) = Some r \<and>
             set (forest_paths target forest) = {r} \<and> fst (last r) = target \<and> r \<noteq> []"
proof -
  let ?aq = "[(''root'', [], forest)]"
  have ok: "qok list_by_share ?aq" using assms(1) by (simp add: qok_def serves_tree_def)
  have ids: "qids ?aq = forest_ids forest" by (simp add: qids_def)
  have "\<exists>r. fst (aliyun_bfs_loop fuel list_by_share target (qconc ?aq) {''root''} []) = Some r \<and>
       r \<in> set (qpaths target ?aq)"
    by (rule bfs_tree) (use assms ok ids in auto)
  then obtain r where r: "fst (bfs_share_path fuel list_by_share target) = Some r"
    "r \<in> set (forest_paths target forest)"
    by (auto simp: bfs_share_path_def qconc_def qpaths_def)
  have one: "set (forest_paths target forest) = {r}"
    using r(2) forest_paths_unique [OF assms(2), of _ target] by blast
  have ne: "r \<noteq> []"
  proof
    assume "r = []"
    with r(2) obtain n where "n \<in> set forest" "[] \<in> set (node_paths target n)"
      by (auto simp: forest_paths_def)
    moreover obtain i kids where "n = Node i kids" by (cases n)
    ultimately show False by auto
  qed
  have "r = [] \<or> fst (last r) = target"
    using r(1) unfolding bfs_share_path_def by (rule aliyun_bfs_loop_shape)
  with r(1) one ne show ?thesis by blast
qed

lemma bfs_share_path_finds_example:
  "fst (bfs_share_path 6 tree_share ''t2'') = Some [(''a'', ''A''), (''t2'', ''x.mkv'')] \<and>
   forest_paths ''t2'' example_tree = [[(''a'', ''A''), (''t2'', ''x.mkv'')]] \<and>
   fst (bfs_share_path 6 tree_share ''t3'') = Some [(''a'', ''A''), (''b'', ''B''), (''t3'', ''y.mkv'')]"
proof -
  have sv: "serves_tree tree_share example_tree"
    by (simp add: serves_tree_def example_tree_def tree_share_def lists_def folder_item_def file_item_def)
  have ids: "forest_ids example_tree = [''a'', ''t2'', ''b'', ''t3'', ''t1'']"
    by (simp add: forest_ids_def example_tree_def folder_item_def file_item_def)
  have p2: "forest_paths ''t2'' example_tree = [[(''a'', ''A''), (''t2'', ''x.mkv'')]]"
    by (simp add: forest_paths_def example_tree_def folder_item_def file_item_def crumb_of_def)
  have p3: "forest_paths ''t3'' example_tree = [[(''a'', ''A''), (''b'', ''B''), (''t3'', ''y.mkv'')]]"
    by (simp add: forest_paths_def example_tree_def folder_item_def file_item_def crumb_of_def)
  from bfs_share_path_finds [where list_by_share = tree_share and forest = example_tree
      and target = "''t2''" and fuel = 6] sv ids p2
  have a: "fst (bfs_share_path 6 tree_share ''t2'') = Some [(''a'', ''A''), (''t2'', ''x.mkv'')]"
    by auto
  from bfs_share_path_finds [where list_by_share = tree_share and forest = example_tree
      and target = "''t3''" and fuel = 6] sv ids p3
  have b: "fst (bfs_share_path 6 tree_share ''t3'') = Some [(''a'', ''A''), (''b'', ''B''), (''t3'', ''y.mkv'')]"
    by auto
  show ?thesis using a b p2 by simp
qed

lemma aliyun_scan_files:
  "\<forall>i \<in> set items. it_file_id i \<noteq> target \<and> it_type i \<noteq> ''folder'' \<Longrightarrow>
   aliyun_scan target path items (visited, queue) = Next (visited, queue)"
  by (induction items) auto

lemma forest_ids_leaves: "forest_ids (map (\<lambda>i. Node i []) items) = map it_file_id items"
  by (induction items) (simp_all add: forest_ids_def)

lemma forest_paths_leaves:
  "forest_paths t (map (\<lambda>i. Node i []) items) =
   map (\<lambda>i. [crumb_of i]) (filter (\<lambda>i. it_file_id i = t) items)"
  by (induction items) (simp_all add: forest_paths_def)

lemma wide_items_files:
  "\<forall>i \<in> set wide_items. it_file_id i \<noteq> ''target'' \<and> it_type i \<noteq> ''folder''"
  by (auto simp: wide_items_def file_item_def)

lemma wide_items_distinct: "distinct (map it_file_id wide_items)"
  by (auto simp: wide_items_def file_item_def distinct_map inj_on_def comp_def)

text \<open>
  C7 (the code at the failing input). \<open>AliyunAdapter._bfs_share_path\<close> misses a
  target that lies beyond the first hundred entries of its folder. The tree
  \<open>wide_tree\<close> has distinct ids and contains the target, with the breadcrumb
  \<open>[target]\<close>; \<open>get_detail\<close> follows the marker and lists all 101 entries of the
  root; \<open>_bfs_share_path\<close> asks for the first page only, never reads
  \<open>next_marker\<close>, and returns the empty breadcrumb, its answer for a target that is
  not in the share, after the single request for the root.
\<close>

theorem bfs_share_path_misses_second_page:
  "distinct (forest_ids wide_tree) \<and>
   forest_paths ''target'' wide_tree = [[(''target'', ''t.mkv'')]] \<and>
   aliyun_get_detail_loop (Suc (Suc fuel)) parse_time wide_share ''root'' [] [] =
     Some (ListingOk (map (convert_share_item parse_time) (map node_item wide_tree))) \<and>
   length wide_tree = 101 \<and>
   bfs_share_path (Suc fuel) wide_share ''target'' = (Some [], [''root''])"
proof (intro conjI)
  have "forest_ids wide_tree = map it_file_id wide_items @ [''target'']"
    unfolding wide_tree_def forest_ids_leaves by (simp add: file_item_def)
  then show "distinct (forest_ids wide_tree)"
    using wide_items_distinct wide_items_files by auto
  have "filter (\<lambda>i. it_file_id i = ''target'') wide_items = []"
    using wide_items_files by (simp add: filter_empty_conv)
  then show "forest_paths ''target'' wide_tree = [[(''target'', ''t.mkv'')]]"
    unfolding wide_tree_def forest_paths_leaves by (simp add: file_item_def crumb_of_def)
  show "aliyun_get_detail_loop (Suc (Suc fuel)) parse_time wide_share ''root'' [] [] =
     Some (ListingOk (map (convert_share_item parse_time) (map node_item wide_tree)))"
    by (simp add: wide_share_def wide_tree_def comp_def)
  show "length wide_tree = 101"
    by (simp add: wide_tree_def wide_items_def)
  show "bfs_share_path (Suc fuel) wide_share ''target'' = (Some [], [''root''])"
    using aliyun_scan_files [OF wide_items_files, of "[]" "{''root''}" "[]"]
    by (simp add: bfs_share_path_def wide_share_def)
qed

section \<open>Results about failures at the adapter boundary\<close>

text \<open>
  C8, the claim as stated fails on \<open>AliyunAdapter.get_fids\<close>: with an invalid token
  (an authentication failure) the operation returns the empty list, which carries
  neither a failure code nor a message.
\<close>

theorem get_fids_failure_untagged:
  "get_fids False (\<lambda>parent name. None) [''/movies''] = Returned (Paths []) \<and>
   \<not> carries_code_and_message (Paths [])"
  by (simp add: get_fids_def carries_code_and_message_def)

lemma check_response_dict:
  "http_json resp = Some (JDict kvs) \<Longrightarrow> check_response resp = Returned (JDict kvs)"
  by (simp add: check_response_def raise_bind_def json_get_def Let_def)

lemma failure_of_Some:
  "failure_of E j = Returned (Some t) \<Longrightarrow> tg_status t = Some 400 \<and> tg_code t = 1"
  by (auto simp: failure_of_def raise_bind_def json_get_def split: json.splits option.splits if_splits)

lemma get_stoken_body_Returned:
  "get_stoken_body E post p c = Returned t \<Longrightarrow>
   (tg_status t = Some 200 \<and> tg_code t = 0) \<or> (tg_status t = Some 400 \<and> tg_code t = 1)"
  unfolding get_stoken_body_def raise_bind_def
  by (auto split: outcome.splits option.splits dest!: failure_of_Some)

lemma get_stoken_returns:
  "\<exists>t. get_stoken E post p c = Returned t \<and>
       ((tg_status t = Some 200 \<and> tg_code t = 0) \<or>
        (tg_status t \<in> {Some 400, Some 500} \<and> tg_code t = 1))"
proof (cases "get_stoken_body E post p c")
  case (Raised e)
  then show ?thesis by (simp add: get_stoken_def except_all_def)
next
  case (Returned t)
  with get_stoken_body_Returned [OF Returned] show ?thesis
    by (auto simp: get_stoken_def except_all_def)
qed

text \<open>
  C8 as amended. \<open>AliyunAdapter.get_stoken\<close> never raises: for every transport it
  returns a dictionary, with status 200 and code 0, or with status 400 or 500 and
  code 1; a transport exception gives status 500 with the exception's text, a provider
  error code gives status 400 with the code's message. \<open>XunleiAdapter._request\<close> never
  raises: invalid tokens, a transport exception and an unparsable body each give a
  dictionary with \<open>error\<close> and \<open>error_description\<close>. \<open>AliyunAdapter.get_fids\<close>
  never raises either, and reports failure by a list (empty when the token is invalid)
  without code or message.
\<close>

theorem adapter_failures_returned:
  "(\<exists>t. get_stoken E post pwd_id passcode = Returned t \<and>
        ((tg_status t = Some 200 \<and> tg_code t = 0) \<or>
         (tg_status t \<in> {Some 400, Some 500} \<and> tg_code t = 1))) \<and>
   (post ''/adrive/v2/share_link/get_share_by_anonymous'' [(''share_id'', pwd_id)] = Raised e \<longrightarrow>
      get_stoken E post pwd_id passcode =
        Returned \<lparr>tg_status = Some 500, tg_code = 1, tg_message = e, tg_data = []\<rparr>) \<and>
   (post ''/adrive/v2/share_link/get_share_by_anonymous'' [(''share_id'', pwd_id)] = Returned resp \<and>
    http_json resp = Some (JDict kvs) \<and> map_of kvs ''code'' = Some c \<and> c \<noteq> [] \<longrightarrow>
      get_stoken E post pwd_id passcode =
        Returned \<lparr>tg_status = Some 400, tg_code = 1, tg_message = get_error_message E c, tg_data = []\<rparr>) \<and>
   (\<exists>j. xunlei_request tokens_valid send = Returned j) \<and>
   (\<not> tokens_valid \<or> (\<exists>x. send = Raised x) \<or> (\<exists>r. send = Returned r \<and> http_json r = None) \<longrightarrow>
      (\<exists>fs. xunlei_request tokens_valid send = Returned (JDict fs) \<and>
            map_of fs ''error'' \<noteq> None \<and> map_of fs ''error_description'' \<noteq> None)) \<and>
   (\<exists>ps. get_fids token_ok find_by_name file_paths = Returned (Paths ps)) \<and>
   get_fids False find_by_name file_paths = Returned (Paths [])"
proof (intro conjI impI)
  show "\<exists>t. get_stoken E post pwd_id passcode = Returned t \<and>
        ((tg_status t = Some 200 \<and> tg_code t = 0) \<or>
         (tg_status t \<in> {Some 400, Some 500} \<and> tg_code t = 1))"
    by (rule get_stoken_returns)
next
  assume "post ''/adrive/v2/share_link/get_share_by_anonymous'' [(''share_id'', pwd_id)] = Raised e"
  then show "get_stoken E post pwd_id passcode =
        Returned \<lparr>tg_status = Some 500, tg_code = 1, tg_message = e, tg_data = []\<rparr>"
    by (simp add: get_stoken_def get_stoken_body_def get_share_info_def aliyun_request_def
        raise_bind_def except_all_def)
next
  assume a: "post ''/adrive/v2/share_link/get_share_by_anonymous'' [(''share_id'', pwd_id)] = Returned resp \<and>
    http_json resp = Some (JDict kvs) \<and> map_of kvs ''code'' = Some c \<and> c \<noteq> []"
  then have "kvs \<noteq> []" by auto
  moreover have "check_response resp = Returned (JDict kvs)"
    by (rule check_response_dict) (use a in simp)
  ultimately show "get_stoken E post pwd_id passcode =
        Returned \<lparr>tg_status = Some 400, tg_code = 1, tg_message = get_error_message E c, tg_data = []\<rparr>"
    using a
    by (simp add: get_stoken_def get_stoken_body_def get_share_info_def aliyun_request_def
        raise_bind_def except_all_def failure_of_def json_truthy_def json_get_def)
next
  show "\<exists>j. xunlei_request tokens_valid send = Returned j"
    by (auto simp: xunlei_request_def except_all_def raise_bind_def split: outcome.splits option.splits)
next
  assume "\<not> tokens_valid \<or> (\<exists>x. send = Raised x) \<or> (\<exists>r. send = Returned r \<and> http_json r = None)"
  then show "\<exists>fs. xunlei_request tokens_valid send = Returned (JDict fs) \<and>
            map_of fs ''error'' \<noteq> None \<and> map_of fs ''error_description'' \<noteq> None"
    by (auto simp: xunlei_request_def except_all_def raise_bind_def)
next
  show "\<exists>ps. get_fids token_ok find_by_name file_paths = Returned (Paths ps)"
    by (simp add: get_fids_def)
next
  show "get_fids False find_by_name file_paths = Returned (Paths [])"
    by (simp add: get_fids_def)
qed

theorem adapter_failures_returned_witness:
  "get_stoken Map.empty (\<lambda>path body. Raised ''timed out'') ''abc'' ''1234'' =
     Returned \<lparr>tg_status = Some 500, tg_code = 1, tg_message = ''timed out'', tg_data = []\<rparr> \<and>
   get_stoken [''NotFound.ShareLink'' \<mapsto> ''gone''] link_expired ''abc'' ''1234'' =
     Returned \<lparr>tg_status = Some 400, tg_code = 1, tg_message = ''gone'', tg_data = []\<rparr> \<and>
   get_stoken [''InvalidResource.SharePwd'' \<mapsto> ''bad password''] password_rejected ''abc'' ''1234'' =
     Returned \<lparr>tg_status = Some 400, tg_code = 1, tg_message = ''bad password'', tg_data = []\<rparr> \<and>
   xunlei_request True (Raised ''timed out'') =
     Returned (JDict [(''error'', ''RequestError''), (''error_description'', ''timed out'')])"
proof -
  have a: "get_stoken Map.empty (\<lambda>path body. Raised ''timed out'') ''abc'' ''1234'' =
     Returned \<lparr>tg_status = Some 500, tg_code = 1, tg_message = ''timed out'', tg_data = []\<rparr>"
    using adapter_failures_returned [where post = "\<lambda>path body. Raised ''timed out''"
        and pwd_id = "''abc''" and e = "''timed out''" and E = Map.empty and passcode = "''1234''"]
    by simp
  have b: "get_stoken [''NotFound.ShareLink'' \<mapsto> ''gone''] link_expired ''abc'' ''1234'' =
     Returned \<lparr>tg_status = Some 400, tg_code = 1, tg_message = ''gone'', tg_data = []\<rparr>"
    using adapter_failures_returned [where post = link_expired and pwd_id = "''abc''"
        and E = "[''NotFound.ShareLink'' \<mapsto> ''gone'']" and passcode = "''1234''"
        and resp = "\<lparr>http_status = 404, http_json = Some (JDict [(''code'', ''NotFound.ShareLink'')]), http_text = []\<rparr>"
        and kvs = "[(''code'', ''NotFound.ShareLink'')]" and c = "''NotFound.ShareLink''"]
    by (simp add: link_expired_def get_error_message_def)
  have c: "get_stoken [''InvalidResource.SharePwd'' \<mapsto> ''bad password''] password_rejected ''abc'' ''1234'' =
     Returned \<lparr>tg_status = Some 400, tg_code = 1, tg_message = ''bad password'', tg_data = []\<rparr>"
    by (simp add: get_stoken_def get_stoken_body_def get_share_info_def get_share_token_def
        aliyun_request_def raise_bind_def except_all_def check_response_def failure_of_def
        json_truthy_def json_get_def password_rejected_def get_error_message_def)
  have d: "xunlei_request True (Raised ''timed out'') =
     Returned (JDict [(''error'', ''RequestError''), (''error_description'', ''timed out'')])"
    using adapter_failures_returned [where tokens_valid = True and send = "Raised ''timed out''"]
    by (simp add: xunlei_request_def except_all_def raise_bind_def)
  show ?thesis using a b c d by simp
qed

end
